theory Spec2Isabelle
  imports Complex_Main
begin

section \<open>Strings\<close>

text \<open>
  A JavaScript string is modelled as a \<^typ>\<open>string\<close>: a list of 8-bit code units,
  read as the Latin-1 range of UTF-16. Code units above 255 are outside the model.
  Counts, indices and ages are integers. A match score is one quotient of two counts and
  a percentage one rounded quotient; they are exact rationals. Durations and costs, which
  the source adds up, are double-precision numbers (section Numbers).
\<close>

definition code_unit :: "char \<Rightarrow> nat" where
  "code_unit c = of_char c"

text \<open>\<^verbatim>\<open>String.prototype.toLowerCase\<close> on one code unit: A-Z and the Latin-1 capitals.\<close>

definition toLowerChar :: "char \<Rightarrow> char" where
  "toLowerChar c =
     (let n = code_unit c
      in if (65 \<le> n \<and> n \<le> 90) \<or> (192 \<le> n \<and> n \<le> 222 \<and> n \<noteq> 215)
         then char_of (n + 32) else c)"

definition toLowerCase :: "string \<Rightarrow> string" where
  "toLowerCase s = map toLowerChar s"

text \<open>
  Equality of two names up to the case of their letters, as the specification has it and
  stated without \<^const>\<open>toLowerCase\<close>: the names have the same length and, at each
  position, the same character or a capital letter (A to Z, or a Latin-1 capital) in one
  and its small form, 32 code units further, in the other.
\<close>

definition isCapital :: "char \<Rightarrow> bool" where
  "isCapital c =
     ((65 \<le> code_unit c \<and> code_unit c \<le> 90)
      \<or> (192 \<le> code_unit c \<and> code_unit c \<le> 222 \<and> code_unit c \<noteq> 215))"

definition small_form_of :: "char \<Rightarrow> char \<Rightarrow> bool" where
  "small_form_of c d = (isCapital c \<and> code_unit d = code_unit c + 32)"

definition same_letter :: "char \<Rightarrow> char \<Rightarrow> bool" where
  "same_letter c d = (c = d \<or> small_form_of c d \<or> small_form_of d c)"

definition equal_ignoring_case :: "string \<Rightarrow> string \<Rightarrow> bool" where
  "equal_ignoring_case s t = list_all2 same_letter s t"

fun startsWith :: "string \<Rightarrow> string \<Rightarrow> bool" where
  "startsWith s [] = True"
| "startsWith [] (d # ds) = False"
| "startsWith (c # cs) (d # ds) = (c = d \<and> startsWith cs ds)"

text \<open>\<^verbatim>\<open>s.includes(t)\<close>: \<open>t\<close> occurs in \<open>s\<close> as a contiguous run.\<close>

fun str_includes :: "string \<Rightarrow> string \<Rightarrow> bool" where
  "str_includes [] t = (t = [])"
| "str_includes (c # cs) t = (startsWith (c # cs) t \<or> str_includes cs t)"

section \<open>Numbers\<close>

text \<open>
  A JavaScript number: a finite double-precision value, given by the rational it stands
  for, an infinity, or NaN. The two zeros are one value here, as they are for
  \<^verbatim>\<open>===\<close>.
\<close>

datatype number = Finite rat | PosInfinity | NegInfinity | NaN

definition pow2 :: "int \<Rightarrow> rat" where
  "pow2 e = (if 0 \<le> e then 2 ^ nat e else 1 / 2 ^ nat (- e))"

text \<open>The number of binary digits of a positive integer.\<close>

function bit_length :: "int \<Rightarrow> int" where
  "bit_length n = (if n \<le> 0 then 0 else 1 + bit_length (n div 2))"
  by pat_completeness auto
termination
  by (relation "measure nat") auto

declare bit_length.simps [simp del]

text \<open>For a positive rational \<open>a\<close>, the exponent \<open>e\<close> with \<open>2\<^sup>e \<le> a < 2\<^sup>e\<^sup>+\<^sup>1\<close>.\<close>

definition floor_log2 :: "rat \<Rightarrow> int" where
  "floor_log2 a =
     (let e = bit_length (fst (quotient_of a)) - bit_length (snd (quotient_of a))
      in if pow2 e \<le> a then e else e - 1)"

definition round_half_even :: "rat \<Rightarrow> int" where
  "round_half_even x =
     (let f = \<lfloor>x\<rfloor>; d = x - of_int f
      in if d < 1 / 2 then f
         else if 1 / 2 < d then f + 1
         else if even f then f else f + 1)"

text \<open>
  The double nearest to a rational, ties to the even significand: 53 significant bits,
  exponents from -1022 (below which the spacing stays \<open>2\<^sup>-\<^sup>1\<^sup>0\<^sup>7\<^sup>4\<close>) to 1023 (above
  which the result is an infinity).
\<close>

definition to_double :: "rat \<Rightarrow> number" where
  "to_double r =
     (if r = 0 then Finite 0
      else
        let a = \<bar>r\<bar>;
            e = max (floor_log2 a) (- 1022)
        in if 1024 \<le> e then (if 0 < r then PosInfinity else NegInfinity)
           else
             let ulp = pow2 (e - 52);
                 m = round_half_even (a / ulp)
             in if e = 1023 \<and> 2 ^ 53 \<le> m then (if 0 < r then PosInfinity else NegInfinity)
                else Finite (sgn r * (of_int m * ulp)))"

text \<open>The operator \<^verbatim>\<open>+\<close> on two numbers: the exact sum, rounded.\<close>

fun js_add :: "number \<Rightarrow> number \<Rightarrow> number" where
  "js_add NaN y = NaN"
| "js_add x NaN = NaN"
| "js_add PosInfinity NegInfinity = NaN"
| "js_add NegInfinity PosInfinity = NaN"
| "js_add PosInfinity y = PosInfinity"
| "js_add x PosInfinity = PosInfinity"
| "js_add NegInfinity y = NegInfinity"
| "js_add x NegInfinity = NegInfinity"
| "js_add (Finite a) (Finite b) = to_double (a + b)"

section \<open>Voice matching engine\<close>

datatype Gender = Male | Female | Neutral

datatype AgeRange = R0_12 | R13_19 | R20_35 | R36_55 | R56_plus

datatype TTSProvider = Elevenlabs | Xtts | Playht

datatype EmotionalRange = Low | Medium | High

record Voice =
  voice_ident :: string
  voice_label :: string
  voice_provider :: TTSProvider
  voice_gender :: Gender
  voice_age_range :: AgeRange
  voice_accent :: string
  descriptors :: "string list"

record VoiceProfile =
  profile_gender :: Gender
  profile_age_range :: AgeRange
  accent :: "string option"
  tone :: "string list"
  emotional_range :: EmotionalRange

record CharacterBible =
  bible_character_name :: string
  age :: int
  gender :: Gender
  voice_profile :: VoiceProfile

text \<open>
  The \<^verbatim>\<open>voice_settings\<close> field of a match (computed by \<^verbatim>\<open>optimizeSettings\<close>
  from the character's profile alone) is left out of the record: it has no influence
  on which voice is chosen, on its score, or on failure.
\<close>

record VoiceMatch =
  match_voice_id :: string
  match_voice_name :: string
  match_provider :: TTSProvider
  match_score :: rat

datatype match_error = NoSuitableVoice string

definition filterByGender :: "Voice list \<Rightarrow> Gender \<Rightarrow> Voice list" where
  "filterByGender voices g =
     filter (\<lambda>v. voice_gender v = g \<or> voice_gender v = Neutral) voices"

definition getAgeRangeFromAge :: "int \<Rightarrow> AgeRange" where
  "getAgeRangeFromAge a =
     (if a \<le> 12 then R0_12
      else if a \<le> 19 then R13_19
      else if a \<le> 35 then R20_35
      else if a \<le> 55 then R36_55
      else R56_plus)"

text \<open>Position in \<^verbatim>\<open>['0-12', '13-19', '20-35', '36-55', '56+']\<close>.\<close>

fun range_index :: "AgeRange \<Rightarrow> int" where
  "range_index R0_12 = 0"
| "range_index R13_19 = 1"
| "range_index R20_35 = 2"
| "range_index R36_55 = 3"
| "range_index R56_plus = 4"

definition areAdjacentAgeRanges :: "AgeRange \<Rightarrow> AgeRange \<Rightarrow> bool" where
  "areAdjacentAgeRanges range1 range2 = (\<bar>range_index range1 - range_index range2\<bar> = 1)"

definition filterByAgeRange :: "Voice list \<Rightarrow> int \<Rightarrow> Voice list" where
  "filterByAgeRange voices a =
     (let targetRange = getAgeRangeFromAge a
      in filter (\<lambda>v. voice_age_range v = targetRange
                     \<or> areAdjacentAgeRanges (voice_age_range v) targetRange) voices)"

definition filterByAccent :: "Voice list \<Rightarrow> string \<Rightarrow> Voice list" where
  "filterByAccent voices acc =
     (let normalizedAccent = toLowerCase acc
      in filter (\<lambda>v. let voiceAccent = toLowerCase (voice_accent v)
                     in voiceAccent = normalizedAccent
                        \<or> voiceAccent = ''neutral''
                        \<or> voiceAccent = ''american'') voices)"

text \<open>The nested iteration of \<^verbatim>\<open>calculatePersonalityMatch\<close>, counting one per matching pair.\<close>

definition matchCount :: "string list \<Rightarrow> string list \<Rightarrow> nat" where
  "matchCount normalizedTone normalizedDescriptors =
     length (concat (map (\<lambda>t. filter (\<lambda>d. str_includes d t \<or> str_includes t d) normalizedDescriptors)
                         normalizedTone))"

definition calculatePersonalityMatch :: "string list \<Rightarrow> string list \<Rightarrow> rat" where
  "calculatePersonalityMatch voiceDescriptors characterTone =
     (if length characterTone = 0 \<or> length voiceDescriptors = 0 then 1 / 2
      else
        let normalizedTone = map toLowerCase characterTone;
            normalizedDescriptors = map toLowerCase voiceDescriptors;
            maxMatches = max (length normalizedTone) (length normalizedDescriptors);
            score = of_nat (matchCount normalizedTone normalizedDescriptors) / of_nat maxMatches
        in min 1 score)"

text \<open>
  \<^verbatim>\<open>scored.sort((a, b) => b.score - a.score)\<close>: the engine's sort is stable, and the
  comparator orders by descending score, so the result is the stable sort on the
  negated score.
\<close>

definition sort_by_score_desc :: "(Voice \<times> rat) list \<Rightarrow> (Voice \<times> rat) list" where
  "sort_by_score_desc scored = sort_key (\<lambda>p. - snd p) scored"

text \<open>
  Steps 1 to 3 of \<^verbatim>\<open>matchCharacterToVoice\<close>: the gender filter, the age filter, and
  the accent filter when the character's accent is set and not empty.
\<close>

definition candidates_of :: "CharacterBible \<Rightarrow> Voice list \<Rightarrow> Voice list" where
  "candidates_of character_bible available_voices =
     (let candidates = filterByGender available_voices (gender character_bible);
          candidates = filterByAgeRange candidates (age character_bible)
      in case accent (voice_profile character_bible) of
           None \<Rightarrow> candidates
         | Some a \<Rightarrow> if a = [] then candidates else filterByAccent candidates a)"

definition matchCharacterToVoice :: "CharacterBible \<Rightarrow> Voice list \<Rightarrow> match_error + VoiceMatch" where
  "matchCharacterToVoice character_bible available_voices =
     (let candidates = candidates_of character_bible available_voices;
          scored = map (\<lambda>v. (v, calculatePersonalityMatch (descriptors v)
                                   (tone (voice_profile character_bible)))) candidates;
          scored = sort_by_score_desc scored
      in case scored of
           [] \<Rightarrow> Inl (NoSuitableVoice (bible_character_name character_bible))
         | best # _ \<Rightarrow>
             Inr \<lparr>match_voice_id = voice_ident (fst best),
                  match_voice_name = voice_label (fst best),
                  match_provider = voice_provider (fst best),
                  match_score = snd best\<rparr>)"

text \<open>
  \<^verbatim>\<open>batchMatchCharactersToVoices\<close>: a character whose match throws is logged and
  skipped.
\<close>

fun batchMatchCharactersToVoices :: "CharacterBible list \<Rightarrow> Voice list \<Rightarrow> VoiceMatch list" where
  "batchMatchCharactersToVoices [] available_voices = []"
| "batchMatchCharactersToVoices (character # characters) available_voices =
     (case matchCharacterToVoice character available_voices of
        Inl _ \<Rightarrow> batchMatchCharactersToVoices characters available_voices
      | Inr m \<Rightarrow> m # batchMatchCharactersToVoices characters available_voices)"

section \<open>Segmenter\<close>

definition LF :: char where
  "LF = CHR 0x0A"

definition CR :: char where
  "CR = CHR 0x0D"

definition DQUOTE :: char where
  "DQUOTE = CHR 0x22"

text \<open>White space as \<^verbatim>\<open>trim\<close> and the class \<^verbatim>\<open>\s\<close> see it, within the 8-bit range.\<close>

definition isWhiteSpace :: "char \<Rightarrow> bool" where
  "isWhiteSpace c = (code_unit c \<in> {9, 10, 11, 12, 13, 32, 160})"

text \<open>The class \<^verbatim>\<open>\w\<close>: letters, digits and the underscore.\<close>

definition isWordChar :: "char \<Rightarrow> bool" where
  "isWordChar c =
     (let n = code_unit c
      in (48 \<le> n \<and> n \<le> 57) \<or> (65 \<le> n \<and> n \<le> 90) \<or> n = 95 \<or> (97 \<le> n \<and> n \<le> 122))"

text \<open>The dot of a regular expression matches anything but a line terminator.\<close>

definition isLineTerminator :: "char \<Rightarrow> bool" where
  "isLineTerminator c = (c = LF \<or> c = CR)"

definition trim :: "string \<Rightarrow> string" where
  "trim s = rev (dropWhile isWhiteSpace (rev (dropWhile isWhiteSpace s)))"

text \<open>
  \<^verbatim>\<open>content.split(/\n\n+/)\<close>: the pieces between maximal runs of two or more line
  feeds. The first argument is the piece being read.
\<close>

function splitBlankLines :: "string \<Rightarrow> string \<Rightarrow> string list" where
  "splitBlankLines cur [] = [cur]"
| "splitBlankLines cur [c] = [cur @ [c]]"
| "splitBlankLines cur (c # d # ds) =
     (if c = LF \<and> d = LF
      then cur # splitBlankLines [] (dropWhile (\<lambda>e. e = LF) ds)
      else splitBlankLines (cur @ [c]) (d # ds))"
  by pat_completeness auto
termination
  by (relation "measure (\<lambda>(cur, s). length s)")
     (auto intro!: le_imp_less_Suc le_SucI length_dropWhile_le)

definition split_paragraphs :: "string \<Rightarrow> string list" where
  "split_paragraphs content = splitBlankLines [] content"

text \<open>\<^verbatim>\<open>/[""].*[""]/\<close>: a double quote, then another one before the line ends.\<close>

fun closingQuote :: "string \<Rightarrow> bool" where
  "closingQuote [] = False"
| "closingQuote (c # cs) =
     (if c = DQUOTE then True else if isLineTerminator c then False else closingQuote cs)"

fun quotedSpan :: "string \<Rightarrow> bool" where
  "quotedSpan [] = False"
| "quotedSpan (c # cs) = ((c = DQUOTE \<and> closingQuote cs) \<or> quotedSpan cs)"

definition attributionVerbs :: "string list" where
  "attributionVerbs = [''said'', ''asked'', ''replied'', ''whispered'', ''shouted'']"

definition detectDialogue :: "string \<Rightarrow> bool" where
  "detectDialogue text =
     (quotedSpan text \<and> list_ex (\<lambda>verb. str_includes text verb) attributionVerbs)"

text \<open>
  \<^verbatim>\<open>/(\w+)\s+(said|asked|replied|whispered|shouted)/i\<close> tried at the head of the
  string: the word characters there (all of them, as no shorter run is followed by
  white space), one or more white-space characters, and a verb in either case.
\<close>

definition nameAtHead :: "string \<Rightarrow> string option" where
  "nameAtHead s =
     (let word = takeWhile isWordChar s;
          rest = dropWhile isWordChar s;
          after = dropWhile isWhiteSpace rest
      in if word \<noteq> [] \<and> length after < length rest
            \<and> list_ex (\<lambda>verb. startsWith (toLowerCase after) verb) attributionVerbs
         then Some word else None)"

text \<open>The leftmost match wins; its first group is the name.\<close>

fun extractCharacterName :: "string \<Rightarrow> string option" where
  "extractCharacterName [] = None"
| "extractCharacterName (c # cs) =
     (case nameAtHead (c # cs) of
        Some word \<Rightarrow> Some word
      | None \<Rightarrow> extractCharacterName cs)"

text \<open>Decimal digits of a number, as a template literal prints it.\<close>

fun show_nat :: "nat \<Rightarrow> string" where
  "show_nat n =
     (if n < 10 then [char_of (48 + n)]
      else show_nat (n div 10) @ [char_of (48 + n mod 10)])"

declare show_nat.simps [simp del]

datatype SegmentType = Narrative | Dialogue

datatype EmotionType = Joy | Fear | Anger | Sadness | NeutralEmotion | Surprise | Disgust

record AudioSegment =
  segment_id :: string
  sequence_number :: nat
  segment_type :: SegmentType
  character_name :: "string option"
  text_content :: string
  emotion_detected :: "EmotionType option"
  emotion_intensity :: "rat option"

record Chapter =
  chapter_id :: string
  chapter_number :: nat
  title :: string
  content :: string
  word_count :: nat

text \<open>What the callback of \<^verbatim>\<open>paragraphs.forEach\<close> pushes for one paragraph.\<close>

definition paragraph_segments :: "Chapter \<Rightarrow> nat \<Rightarrow> string \<Rightarrow> AudioSegment list" where
  "paragraph_segments chapter index paragraph =
     (if trim paragraph \<noteq> [] then
        let isDialogue = detectDialogue paragraph;
            characterName = (if isDialogue then extractCharacterName paragraph else None)
        in [\<lparr>segment_id = chapter_id chapter @ ''_seg_'' @ show_nat index,
             sequence_number = index + 1,
             segment_type = (if isDialogue then Dialogue else Narrative),
             character_name = characterName,
             text_content = trim paragraph,
             emotion_detected = None,
             emotion_intensity = None\<rparr>]
      else [])"

fun forEach_paragraph :: "Chapter \<Rightarrow> nat \<Rightarrow> string list \<Rightarrow> AudioSegment list \<Rightarrow> AudioSegment list" where
  "forEach_paragraph chapter index [] segments = segments"
| "forEach_paragraph chapter index (paragraph # paragraphs) segments =
     forEach_paragraph chapter (index + 1) paragraphs
       (segments @ paragraph_segments chapter index paragraph)"

fun segmentChapters_loop :: "Chapter list \<Rightarrow> AudioSegment list \<Rightarrow> AudioSegment list" where
  "segmentChapters_loop [] segments = segments"
| "segmentChapters_loop (chapter # chapters) segments =
     segmentChapters_loop chapters
       (forEach_paragraph chapter 0 (split_paragraphs (content chapter)) segments)"

definition segmentChapters :: "Chapter list \<Rightarrow> AudioSegment list" where
  "segmentChapters chapters = segmentChapters_loop chapters []"

section \<open>Generation orchestrator\<close>

record VoiceSettings =
  stability :: rat
  similarity_boost :: rat
  style :: "rat option"
  use_speaker_boost :: "bool option"

record VoiceAssignment =
  assigned_character_name :: string
  assigned_voice_id :: string
  assigned_voice_name :: string
  assigned_provider :: TTSProvider
  assigned_match_score :: rat
  voice_settings :: VoiceSettings

record EmotionContext =
  emotion_kind :: EmotionType
  intensity :: rat

record TTSGenerationParams =
  speech_text :: string
  voice_id :: string
  settings :: "VoiceSettings option"
  emotion :: "EmotionContext option"

datatype AudioFormat = Mp3 | Wav | M4b

type_synonym Buffer = string

record GeneratedAudio =
  audio_data :: Buffer
  format :: AudioFormat
  duration :: number
  provider :: TTSProvider
  cost :: number

datatype gen_error =
    NoVoiceAssignment string
  | ProviderFailed TTSProvider
  | AllProvidersFailed
  | QueryFailed

text \<open>
  A synthesis service, seen from the provider class that wraps it: the one request made
  with given parameters either fails (network error, bad status, timeout) or yields
  the audio bytes, with the duration and the cost the class computes from the text.
\<close>

type_synonym service = "TTSGenerationParams \<Rightarrow> (Buffer \<times> number \<times> number) option"

definition elevenlabs_generateSpeech :: "service \<Rightarrow> TTSGenerationParams \<Rightarrow> gen_error + GeneratedAudio" where
  "elevenlabs_generateSpeech svc params =
     (case svc params of
        None \<Rightarrow> Inl (ProviderFailed Elevenlabs)
      | Some (audioBuffer, d, c) \<Rightarrow>
          Inr \<lparr>audio_data = audioBuffer, format = Mp3, duration = d,
               provider = Elevenlabs, cost = c\<rparr>)"

definition playht_generateSpeech :: "service \<Rightarrow> TTSGenerationParams \<Rightarrow> gen_error + GeneratedAudio" where
  "playht_generateSpeech svc params =
     (case svc params of
        None \<Rightarrow> Inl (ProviderFailed Playht)
      | Some (audioBuffer, d, c) \<Rightarrow>
          Inr \<lparr>audio_data = audioBuffer, format = Mp3, duration = d,
               provider = Playht, cost = c\<rparr>)"

text \<open>\<^verbatim>\<open>!characterName\<close> holds of \<^verbatim>\<open>null\<close> and of the empty string.\<close>

definition findVoiceAssignment :: "string option \<Rightarrow> VoiceAssignment list \<Rightarrow> VoiceAssignment option" where
  "findVoiceAssignment characterName assignments =
     (if characterName = None \<or> characterName = Some []
      then find (\<lambda>a. assigned_character_name a = ''narrator'') assignments
      else find (\<lambda>a. toLowerCase (assigned_character_name a) = toLowerCase (the characterName))
             assignments)"

definition segment_params :: "AudioSegment \<Rightarrow> VoiceAssignment \<Rightarrow> TTSGenerationParams" where
  "segment_params segment assignment =
     \<lparr>speech_text = text_content segment,
      voice_id = assigned_voice_id assignment,
      settings = Some (voice_settings assignment),
      emotion =
        (case emotion_detected segment of
           None \<Rightarrow> None
         | Some e \<Rightarrow>
             Some \<lparr>emotion_kind = e,
                   intensity = (case emotion_intensity segment of
                                  None \<Rightarrow> 1 / 2
                                | Some x \<Rightarrow> if x = 0 then 1 / 2 else x)\<rparr>)\<rparr>"

text \<open>
  The result of \<^verbatim>\<open>generateSingleSegment\<close> comes with the provider calls it made,
  in the order it made them.
\<close>

type_synonym provider_call = "TTSProvider \<times> TTSGenerationParams"

definition generateSingleSegment ::
  "service \<Rightarrow> service \<Rightarrow> AudioSegment \<Rightarrow> VoiceAssignment list
     \<Rightarrow> provider_call list \<times> (gen_error + GeneratedAudio)" where
  "generateSingleSegment elevenlabs playht segment assignments =
     (case findVoiceAssignment (character_name segment) assignments of
        None \<Rightarrow> ([], Inl (NoVoiceAssignment (segment_id segment)))
      | Some assignment \<Rightarrow>
          (let params = segment_params segment assignment
           in (case elevenlabs_generateSpeech elevenlabs params of
                 Inr audio \<Rightarrow> ([(Elevenlabs, params)], Inr audio)
               | Inl error \<Rightarrow>
                   (case playht_generateSpeech playht params of
                      Inr audio \<Rightarrow> ([(Elevenlabs, params), (Playht, params)], Inr audio)
                    | Inl fallbackError \<Rightarrow>
                        ([(Elevenlabs, params), (Playht, params)], Inl AllProvidersFailed)))))"

text \<open>\<^verbatim>\<open>Array.prototype.slice(start, end)\<close>, negative indices counting from the end.\<close>

definition slice :: "'a list \<Rightarrow> int \<Rightarrow> int \<Rightarrow> 'a list" where
  "slice xs start fin =
     (let len = int (length xs);
          k = (if start < 0 then max (len + start) 0 else min start len);
          final = (if fin < 0 then max (len + fin) 0 else min fin len)
      in take (nat (final - k)) (drop (nat k) xs))"

text \<open>
  \<^verbatim>\<open>Promise.all\<close> over calls whose outcomes are given, in input order. When all are
  fulfilled the values come back in input order. Otherwise the rejection that settles
  first is the one reported; \<open>settled_at k\<close> is the time at which call \<open>k\<close> settles.
\<close>

definition Promise_all :: "(nat \<Rightarrow> nat) \<Rightarrow> (gen_error + 'a) list \<Rightarrow> gen_error + 'a list" where
  "Promise_all settled_at outcomes =
     (case filter (\<lambda>k. isl (outcomes ! k)) [0..<length outcomes] of
        [] \<Rightarrow> Inr (map projr outcomes)
      | k # ks \<Rightarrow> Inl (projl (outcomes ! arg_min_list settled_at (k # ks))))"

text \<open>
  What a run of \<^verbatim>\<open>generateSegments\<close> has done so far: the results pushed, the
  batches handed to \<^verbatim>\<open>Promise.all\<close>, and the arguments of each call of the progress
  callback.
\<close>

record gen_run =
  results :: "GeneratedAudio list"
  dispatched :: "AudioSegment list list"
  progress :: "(int \<times> int) list"

text \<open>
  The loop \<^verbatim>\<open>for (let i = 0; i < segments.length; i += batchSize)\<close>. It need not
  end (a batch size of zero), so its value is an option. \<open>settled_at i\<close> gives the
  settling times of the calls of the batch that starts at \<open>i\<close>.
\<close>

partial_function (option) generateSegments_loop ::
  "service \<Rightarrow> service \<Rightarrow> (int \<Rightarrow> nat \<Rightarrow> nat) \<Rightarrow> int \<Rightarrow> AudioSegment list \<Rightarrow> VoiceAssignment list
     \<Rightarrow> int \<Rightarrow> gen_run \<Rightarrow> (gen_run \<times> (gen_error + GeneratedAudio list)) option" where
  "generateSegments_loop elevenlabs playht settled_at batchSize segments assignments i run =
     (if i < int (length segments) then
        let batch = slice segments i (i + batchSize);
            run = run\<lparr>dispatched := dispatched run @ [batch]\<rparr>
        in case Promise_all (settled_at i)
                  (map (\<lambda>segment. snd (generateSingleSegment elevenlabs playht segment assignments))
                     batch) of
             Inl error \<Rightarrow> Some (run, Inl error)
           | Inr batchResults \<Rightarrow>
               generateSegments_loop elevenlabs playht settled_at batchSize segments assignments
                 (i + batchSize)
                 (run\<lparr>results := results run @ batchResults,
                      progress := progress run @ [(i + int (length batch), int (length segments))]\<rparr>)
      else Some (run, Inr (results run)))"

declare generateSegments_loop.simps [code]

definition generateSegments ::
  "service \<Rightarrow> service \<Rightarrow> (int \<Rightarrow> nat \<Rightarrow> nat) \<Rightarrow> int \<Rightarrow> AudioSegment list \<Rightarrow> VoiceAssignment list
     \<Rightarrow> (gen_run \<times> (gen_error + GeneratedAudio list)) option" where
  "generateSegments elevenlabs playht settled_at batchSize segments assignments =
     generateSegments_loop elevenlabs playht settled_at batchSize segments assignments 0
       \<lparr>results = [], dispatched = [], progress = []\<rparr>"

datatype ProgressStage =
    Analyzing_chapters
  | Matching_voices
  | Generating_audio
  | Assembling_audiobook
  | Finalizing
  | Complete
  | Error

text \<open>A progress event, without its message text.\<close>

record ProgressUpdate =
  stage :: ProgressStage
  percent_complete :: int
  current_segment :: "int option"
  total_segments :: "int option"

text \<open>\<^verbatim>\<open>Math.round\<close>: the nearest integer, halves upwards.\<close>

definition Math_round :: "rat \<Rightarrow> int" where
  "Math_round x = \<lfloor>x + 1 / 2\<rfloor>"

definition segment_progress :: "int \<times> int \<Rightarrow> ProgressUpdate" where
  "segment_progress ct =
     (let current = fst ct; total = snd ct;
          percent = 10 + (of_int current / of_int total) * 80
      in \<lparr>stage = Generating_audio, percent_complete = Math_round percent,
          current_segment = Some current, total_segments = Some total\<rparr>)"

record GenerationParams =
  project_id :: string
  chapters :: "Chapter list"
  voice_assignments :: "VoiceAssignment list"

record AudiobookProject =
  project_ref :: string
  status :: string
  chapter_count :: nat

text \<open>
  \<^verbatim>\<open>generateAudiobook\<close>: the events handed to the progress callback, in order, and
  the outcome. \<open>query\<close> is the database lookup that ends a run: it fails, or finds no
  row, or finds the project.
\<close>

definition generateAudiobook ::
  "service \<Rightarrow> service \<Rightarrow> (int \<Rightarrow> nat \<Rightarrow> nat) \<Rightarrow> int \<Rightarrow> (string \<Rightarrow> AudiobookProject option option)
     \<Rightarrow> GenerationParams
     \<Rightarrow> (ProgressUpdate list \<times> (gen_error + AudiobookProject option)) option" where
  "generateAudiobook elevenlabs playht settled_at batchSize query params =
     (let errorEvent = \<lparr>stage = Error, percent_complete = 0,
                         current_segment = None, total_segments = None\<rparr>;
          events = [\<lparr>stage = Analyzing_chapters, percent_complete = 5,
                     current_segment = None, total_segments = None\<rparr>];
          segments = segmentChapters (chapters params);
          events = events @ [\<lparr>stage = Generating_audio, percent_complete = 10,
                               current_segment = Some 0,
                               total_segments = Some (int (length segments))\<rparr>]
      in case generateSegments elevenlabs playht settled_at batchSize segments
                (voice_assignments params) of
           None \<Rightarrow> None
         | Some (run, Inl error) \<Rightarrow>
             Some (events @ map segment_progress (progress run) @ [errorEvent], Inl error)
         | Some (run, Inr audioSegments) \<Rightarrow>
             let events = events @ map segment_progress (progress run)
                   @ [\<lparr>stage = Finalizing, percent_complete = 95,
                        current_segment = None, total_segments = None\<rparr>,
                       \<lparr>stage = Complete, percent_complete = 100,
                        current_segment = None, total_segments = None\<rparr>]
             in (case query (project_id params) of
                   None \<Rightarrow> Some (events @ [errorEvent], Inl QueryFailed)
                 | Some project \<Rightarrow> Some (events, Inr project)))"

section \<open>Audio assembler\<close>

record NormalizedAudio =
  normalized_data :: Buffer
  normalized_format :: AudioFormat
  normalized_duration :: number
  normalized_lufs :: rat

record ChapterMarker =
  marker_number :: nat
  marker_title :: string
  start_time :: number
  marker_duration :: number

record AudiobookMetadata =
  book_title :: string
  author :: string
  narrator :: string
  language :: string

record AssembledAudiobook =
  mp3_file :: Buffer
  m4b_file :: Buffer
  total_duration :: number
  total_cost :: number
  markers :: "ChapterMarker list"
  metadata :: AudiobookMetadata

record AudioAssemblyParams =
  assembly_project_id :: string
  audio_segments :: "GeneratedAudio list"
  assembly_metadata :: AudiobookMetadata

text \<open>
  A file of the temporary directory: \<^verbatim>\<open>input_<time>.<extension>\<close> or
  \<^verbatim>\<open>output_<time>.<extension>\<close>.
\<close>

datatype temp_path = InputFile nat string | OutputFile nat string

fun extension :: "AudioFormat \<Rightarrow> string" where
  "extension Mp3 = ''mp3''"
| "extension Wav = ''wav''"
| "extension M4b = ''m4b''"

text \<open>
  The assembler's world: the files of the temporary directory and the number of times
  the clock has been read. \<open>now k\<close> is what the \<open>k\<close>-th reading of
  \<^verbatim>\<open>Date.now()\<close> returns.
\<close>

record world =
  files :: "temp_path \<rightharpoonup> Buffer"
  clock_reads :: nat

datatype asm_error = ENOENT temp_path | EngineError

definition Date_now :: "(nat \<Rightarrow> nat) \<Rightarrow> world \<Rightarrow> nat \<times> world" where
  "Date_now now w = (now (clock_reads w), w\<lparr>clock_reads := Suc (clock_reads w)\<rparr>)"

definition writeFile :: "world \<Rightarrow> temp_path \<Rightarrow> Buffer \<Rightarrow> world" where
  "writeFile w p d = w\<lparr>files := (files w)(p \<mapsto> d)\<rparr>"

definition readFile :: "world \<Rightarrow> temp_path \<Rightarrow> asm_error + Buffer" where
  "readFile w p = (case files w p of None \<Rightarrow> Inl (ENOENT p) | Some d \<Rightarrow> Inr d)"

definition unlink :: "world \<Rightarrow> temp_path \<Rightarrow> asm_error + world" where
  "unlink w p =
     (case files w p of
        None \<Rightarrow> Inl (ENOENT p)
      | Some d \<Rightarrow> Inr (w\<lparr>files := (files w)(p := None)\<rparr>))"

text \<open>
  The audio engine, run on an input file to produce an output file: it fails and
  writes nothing, or it writes the output.
\<close>

datatype engine_job = Loudnorm rat | ToM4b

type_synonym engine = "engine_job \<Rightarrow> Buffer \<Rightarrow> Buffer option"

definition run_ffmpeg :: "engine \<Rightarrow> engine_job \<Rightarrow> world \<Rightarrow> temp_path \<Rightarrow> temp_path \<Rightarrow> asm_error + world" where
  "run_ffmpeg eng job w tempInput tempOutput =
     (case files w tempInput of
        None \<Rightarrow> Inl EngineError
      | Some d \<Rightarrow>
          (case eng job d of
             None \<Rightarrow> Inl EngineError
           | Some out \<Rightarrow> Inr (writeFile w tempOutput out)))"

text \<open>The body of the loop of \<^verbatim>\<open>normalizeAudio\<close>, for one segment.\<close>

definition normalize_segment ::
  "(nat \<Rightarrow> nat) \<Rightarrow> engine \<Rightarrow> rat \<Rightarrow> world \<Rightarrow> GeneratedAudio \<Rightarrow> world \<times> (asm_error + NormalizedAudio)" where
  "normalize_segment now eng normalizationLUFS w segment =
     (let (t1, w) = Date_now now w;
          tempInput = InputFile t1 (extension (format segment));
          (t2, w) = Date_now now w;
          tempOutput = OutputFile t2 ''mp3'';
          w = writeFile w tempInput (audio_data segment)
      in case run_ffmpeg eng (Loudnorm normalizationLUFS) w tempInput tempOutput of
           Inl error \<Rightarrow> (w, Inl error)
         | Inr w \<Rightarrow>
             (case readFile w tempOutput of
                Inl error \<Rightarrow> (w, Inl error)
              | Inr normalizedData \<Rightarrow>
                  (case unlink w tempInput of
                     Inl error \<Rightarrow> (w, Inl error)
                   | Inr w \<Rightarrow>
                       (case unlink w tempOutput of
                          Inl error \<Rightarrow> (w, Inl error)
                        | Inr w \<Rightarrow>
                            (w, Inr \<lparr>normalized_data = normalizedData,
                                     normalized_format = Mp3,
                                     normalized_duration = duration segment,
                                     normalized_lufs = normalizationLUFS\<rparr>)))))"

fun normalizeAudio_loop ::
  "(nat \<Rightarrow> nat) \<Rightarrow> engine \<Rightarrow> rat \<Rightarrow> GeneratedAudio list \<Rightarrow> world \<Rightarrow> NormalizedAudio list
     \<Rightarrow> world \<times> (asm_error + NormalizedAudio list)" where
  "normalizeAudio_loop now eng lufs [] w normalized = (w, Inr normalized)"
| "normalizeAudio_loop now eng lufs (segment # segments) w normalized =
     (case normalize_segment now eng lufs w segment of
        (w, Inl error) \<Rightarrow> (w, Inl error)
      | (w, Inr n) \<Rightarrow> normalizeAudio_loop now eng lufs segments w (normalized @ [n]))"

definition normalizeAudio ::
  "(nat \<Rightarrow> nat) \<Rightarrow> engine \<Rightarrow> rat \<Rightarrow> world \<Rightarrow> GeneratedAudio list
     \<Rightarrow> world \<times> (asm_error + NormalizedAudio list)" where
  "normalizeAudio now eng lufs w segments = normalizeAudio_loop now eng lufs segments w []"

text \<open>
  The \<^verbatim>\<open>forEach\<close> of \<^verbatim>\<open>addChapterMarkers\<close>, with the index, the running
  \<^verbatim>\<open>currentTime\<close> and the markers pushed so far.
\<close>

fun markers_loop :: "NormalizedAudio list \<Rightarrow> nat \<Rightarrow> number \<Rightarrow> ChapterMarker list \<Rightarrow> ChapterMarker list" where
  "markers_loop [] index currentTime chapterMarkers = chapterMarkers"
| "markers_loop (segment # segments) index currentTime chapterMarkers =
     markers_loop segments (index + 1) (js_add currentTime (normalized_duration segment))
       (chapterMarkers @ [\<lparr>marker_number = index + 1,
                     marker_title = ''Chapter '' @ show_nat (index + 1),
                     start_time = currentTime,
                     marker_duration = normalized_duration segment\<rparr>])"

definition addChapterMarkers :: "NormalizedAudio list \<Rightarrow> Buffer \<times> ChapterMarker list" where
  "addChapterMarkers normalized =
     (let combinedAudio = concat (map normalized_data normalized)
      in (combinedAudio, markers_loop normalized 0 (Finite 0) []))"

definition generateMP3 :: "Buffer \<times> ChapterMarker list \<Rightarrow> Buffer" where
  "generateMP3 data = fst data"

definition generateM4B ::
  "(nat \<Rightarrow> nat) \<Rightarrow> engine \<Rightarrow> world \<Rightarrow> Buffer \<times> ChapterMarker list \<Rightarrow> world \<times> (asm_error + Buffer)" where
  "generateM4B now eng w data =
     (let (t1, w) = Date_now now w;
          tempInput = InputFile t1 ''mp3'';
          (t2, w) = Date_now now w;
          tempOutput = OutputFile t2 ''m4b'';
          w = writeFile w tempInput (fst data)
      in case run_ffmpeg eng ToM4b w tempInput tempOutput of
           Inl error \<Rightarrow> (w, Inl error)
         | Inr w \<Rightarrow>
             (case readFile w tempOutput of
                Inl error \<Rightarrow> (w, Inl error)
              | Inr m4bData \<Rightarrow>
                  (case unlink w tempInput of
                     Inl error \<Rightarrow> (w, Inl error)
                   | Inr w \<Rightarrow>
                       (case unlink w tempOutput of
                          Inl error \<Rightarrow> (w, Inl error)
                        | Inr w \<Rightarrow> (w, Inr m4bData)))))"

text \<open>\<^verbatim>\<open>reduce((sum, x) => sum + x.duration, 0)\<close> and its twin for the cost.\<close>

definition calculateTotalDuration :: "NormalizedAudio list \<Rightarrow> number" where
  "calculateTotalDuration normalized =
     foldl (\<lambda>sum a. js_add sum (normalized_duration a)) (Finite 0) normalized"

definition calculateCost :: "GeneratedAudio list \<Rightarrow> number" where
  "calculateCost segments = foldl (\<lambda>sum segment. js_add sum (cost segment)) (Finite 0) segments"

definition assembleAudiobook ::
  "(nat \<Rightarrow> nat) \<Rightarrow> engine \<Rightarrow> rat \<Rightarrow> world \<Rightarrow> AudioAssemblyParams
     \<Rightarrow> world \<times> (asm_error + AssembledAudiobook)" where
  "assembleAudiobook now eng lufs w params =
     (case normalizeAudio now eng lufs w (audio_segments params) of
        (w, Inl error) \<Rightarrow> (w, Inl error)
      | (w, Inr normalized) \<Rightarrow>
          (let withMarkers = addChapterMarkers normalized;
               mp3 = generateMP3 withMarkers
           in (case generateM4B now eng w withMarkers of
                 (w, Inl error) \<Rightarrow> (w, Inl error)
               | (w, Inr m4b) \<Rightarrow>
                   (w, Inr \<lparr>mp3_file = mp3,
                            m4b_file = m4b,
                            total_duration = calculateTotalDuration normalized,
                            total_cost = calculateCost (audio_segments params),
                            markers = snd withMarkers,
                            metadata = assembly_metadata params\<rparr>))))"

section \<open>Batches\<close>

text \<open>
  A list cut into consecutive batches of \<open>b\<close> elements, the last one possibly
  shorter: \<open>\<lceil>n / b\<rceil>\<close> batches for \<open>n\<close> elements.
\<close>

function chunks :: "nat \<Rightarrow> 'a list \<Rightarrow> 'a list list" where
  "chunks b xs = (if b = 0 \<or> xs = [] then [] else take b xs # chunks b (drop b xs))"
  by pat_completeness auto
termination
  by (relation "measure (\<lambda>(b, xs). length xs)") auto

declare chunks.simps [simp del]

text \<open>
  The iterations of the loop of \<^verbatim>\<open>generateSegments\<close> over given batches, the first
  of which starts at index \<open>i\<close>; \<open>totalSegments\<close> is \<^verbatim>\<open>segments.length\<close>.
\<close>

fun run_batches ::
  "service \<Rightarrow> service \<Rightarrow> (int \<Rightarrow> nat \<Rightarrow> nat) \<Rightarrow> int \<Rightarrow> int \<Rightarrow> VoiceAssignment list
     \<Rightarrow> AudioSegment list list \<Rightarrow> int \<Rightarrow> gen_run \<Rightarrow> gen_run \<times> (gen_error + GeneratedAudio list)" where
  "run_batches elevenlabs playht settled_at batchSize totalSegments assignments [] i run =
     (run, Inr (results run))"
| "run_batches elevenlabs playht settled_at batchSize totalSegments assignments (batch # batches) i run =
     (let run = run\<lparr>dispatched := dispatched run @ [batch]\<rparr>
      in case Promise_all (settled_at i)
                (map (\<lambda>segment. snd (generateSingleSegment elevenlabs playht segment assignments))
                   batch) of
           Inl error \<Rightarrow> (run, Inl error)
         | Inr batchResults \<Rightarrow>
             run_batches elevenlabs playht settled_at batchSize totalSegments assignments batches
               (i + batchSize)
               (run\<lparr>results := results run @ batchResults,
                    progress := progress run @ [(i + int (length batch), totalSegments)]\<rparr>))"

text \<open>The outcome of the call made for one unit.\<close>

abbreviation outcome ::
  "service \<Rightarrow> service \<Rightarrow> VoiceAssignment list \<Rightarrow> AudioSegment \<Rightarrow> gen_error + GeneratedAudio" where
  "outcome el ph as s \<equiv> snd (generateSingleSegment el ph s as)"

section \<open>Example inputs\<close>

definition example_pool :: "Voice list" where
  "example_pool =
     [\<lparr>voice_ident = ''v-dynamic'', voice_label = ''Dana'', voice_provider = Playht,
       voice_gender = Female, voice_age_range = R20_35, voice_accent = ''British'',
       descriptors = [''dynamic'']\<rparr>,
      \<lparr>voice_ident = ''v-warm'', voice_label = ''Wren'', voice_provider = Elevenlabs,
       voice_gender = Female, voice_age_range = R36_55, voice_accent = ''American'',
       descriptors = [''warm'', ''Calm'']\<rparr>,
      \<lparr>voice_ident = ''v-calm'', voice_label = ''Cleo'', voice_provider = Xtts,
       voice_gender = Neutral, voice_age_range = R20_35, voice_accent = ''neutral'',
       descriptors = [''soft'', ''calming'']\<rparr>]"

definition male_pool :: "Voice list" where
  "male_pool =
     [\<lparr>voice_ident = ''v-adam'', voice_label = ''Adam'', voice_provider = Elevenlabs,
       voice_gender = Male, voice_age_range = R20_35, voice_accent = ''american'',
       descriptors = [''deep'']\<rparr>,
      \<lparr>voice_ident = ''v-bert'', voice_label = ''Bert'', voice_provider = Playht,
       voice_gender = Male, voice_age_range = R36_55, voice_accent = ''british'',
       descriptors = []\<rparr>]"

definition example_character :: CharacterBible where
  "example_character =
     \<lparr>bible_character_name = ''Elena'', age = 30, gender = Female,
      voice_profile = \<lparr>profile_gender = Female, profile_age_range = R20_35,
                        accent = None, tone = [''calm''], emotional_range = Medium\<rparr>\<rparr>"

definition example_fragments :: "GeneratedAudio list" where
  "example_fragments =
     [\<lparr>audio_data = ''one'', format = Mp3, duration = Finite 10, provider = Elevenlabs,
       cost = Finite (1 / 4)\<rparr>,
      \<lparr>audio_data = ''two'', format = Wav, duration = Finite 20, provider = Playht,
       cost = Finite (1 / 8)\<rparr>,
      \<lparr>audio_data = ''three'', format = Mp3, duration = Finite 15, provider = Elevenlabs,
       cost = Finite (1 / 2)\<rparr>]"

definition example_normalized :: "NormalizedAudio list" where
  "example_normalized =
     map (\<lambda>g. \<lparr>normalized_data = audio_data g, normalized_format = Mp3,
                normalized_duration = duration g, normalized_lufs = - 23\<rparr>) example_fragments"

text \<open>Three fragments that last 0.1, 0.2 and 0.3 seconds and cost as much.\<close>

definition fractional_fragments :: "GeneratedAudio list" where
  "fractional_fragments =
     [\<lparr>audio_data = ''one'', format = Mp3, duration = to_double (1 / 10), provider = Elevenlabs,
       cost = to_double (1 / 10)\<rparr>,
      \<lparr>audio_data = ''two'', format = Mp3, duration = to_double (2 / 10), provider = Elevenlabs,
       cost = to_double (2 / 10)\<rparr>,
      \<lparr>audio_data = ''three'', format = Mp3, duration = to_double (3 / 10), provider = Elevenlabs,
       cost = to_double (3 / 10)\<rparr>]"

definition fractional_normalized :: "NormalizedAudio list" where
  "fractional_normalized =
     map (\<lambda>g. \<lparr>normalized_data = audio_data g, normalized_format = Mp3,
                normalized_duration = duration g, normalized_lufs = - 23\<rparr>) fractional_fragments"

definition example_metadata :: AudiobookMetadata where
  "example_metadata =
     \<lparr>book_title = ''A Book'', author = ''An Author'', narrator = ''A Voice'', language = ''en''\<rparr>"

definition example_assembly :: AudioAssemblyParams where
  "example_assembly =
     \<lparr>assembly_project_id = ''p1'', audio_segments = example_fragments,
      assembly_metadata = example_metadata\<rparr>"

definition empty_world :: world where
  "empty_world = \<lparr>files = Map.empty, clock_reads = 0\<rparr>"

text \<open>A clock that advances by one at each reading, and an engine that never fails.\<close>

definition ticking_clock :: "nat \<Rightarrow> nat" where
  "ticking_clock k = 1000 + k"

definition working_engine :: engine where
  "working_engine job d = Some (''#'' @ d)"

definition narration :: "nat \<Rightarrow> AudioSegment" where
  "narration k =
     \<lparr>segment_id = ''ch1_seg_'' @ show_nat k, sequence_number = k + 1,
      segment_type = Narrative, character_name = None,
      text_content = ''Paragraph '' @ show_nat k,
      emotion_detected = None, emotion_intensity = None\<rparr>"

definition five_units :: "AudioSegment list" where
  "five_units = map narration [0, 1, 2, 3, 4]"

definition line_of_john :: AudioSegment where
  "line_of_john =
     \<lparr>segment_id = ''ch1_seg_5'', sequence_number = 6,
      segment_type = Dialogue, character_name = Some ''JOHN'',
      text_content = ''Stop, JOHN said.'',
      emotion_detected = None, emotion_intensity = None\<rparr>"

definition example_settings :: VoiceSettings where
  "example_settings =
     \<lparr>stability = 13 / 20, similarity_boost = 3 / 4, style = Some (1 / 2),
      use_speaker_boost = Some True\<rparr>"

text \<open>Two assignments, both pinned to providers other than the primary one.\<close>

definition example_assignments :: "VoiceAssignment list" where
  "example_assignments =
     [\<lparr>assigned_character_name = ''narrator'', assigned_voice_id = ''voice-n'',
       assigned_voice_name = ''Nora'', assigned_provider = Xtts,
       assigned_match_score = 1 / 2, voice_settings = example_settings\<rparr>,
      \<lparr>assigned_character_name = ''John'', assigned_voice_id = ''voice-j'',
       assigned_voice_name = ''Jon'', assigned_provider = Playht,
       assigned_match_score = 1, voice_settings = example_settings\<rparr>]"

definition working_service :: service where
  "working_service params = Some (''audio of '' @ speech_text params, Finite 3, Finite (1 / 64))"

definition failing_service :: service where
  "failing_service params = None"

text \<open>A service that fails for one text and works for every other.\<close>

definition picky_service :: service where
  "picky_service params =
     (if speech_text params = ''Paragraph 2'' then None else working_service params)"

text \<open>Calls that settle in the order of their start, and in the opposite order.\<close>

definition in_order :: "int \<Rightarrow> nat \<Rightarrow> nat" where
  "in_order i k = k"

definition last_first :: "int \<Rightarrow> nat \<Rightarrow> nat" where
  "last_first i k = 100 - k"

definition example_chapter :: Chapter where
  "example_chapter =
     \<lparr>chapter_id = ''ch1'', chapter_number = 1, title = ''One'',
      content = ''It was late.'' @ [LF, LF] @ ''Nobody spoke.'' @ [LF, LF] @ ''Rain fell.'',
      word_count = 7\<rparr>"

definition example_generation :: GenerationParams where
  "example_generation =
     \<lparr>project_id = ''p1'', chapters = [example_chapter],
      voice_assignments = example_assignments\<rparr>"

definition example_query :: "string \<Rightarrow> AudiobookProject option option" where
  "example_query pid = Some (Some \<lparr>project_ref = pid, status = ''processing'', chapter_count = 1\<rparr>)"

definition second_chapter :: Chapter where
  "second_chapter =
     \<lparr>chapter_id = ''ch2'', chapter_number = 2, title = ''Two'',
      content = ''Morning came.'', word_count = 2\<rparr>"

definition spoken_paragraph :: string where
  "spoken_paragraph = DQUOTE # ''Hello,'' @ DQUOTE # '' John said.''"

definition unspoken_paragraph :: string where
  "unspoken_paragraph = DQUOTE # ''Hello,'' @ DQUOTE # '' John smiled.''"

text \<open>A quotation that runs over a line break, and a verb inside a longer word.\<close>

definition broken_quote_paragraph :: string where
  "broken_quote_paragraph = DQUOTE # ''Go'' @ [LF] @ ''now,'' @ DQUOTE # '' she said.''"

definition unasked_paragraph :: string where
  "unasked_paragraph = DQUOTE # ''Fine.'' @ DQUOTE # '' The question stayed unasked.''"

text \<open>An engine that always fails.\<close>

definition broken_engine :: engine where
  "broken_engine job d = None"

section \<open>Helper lemmas\<close>

lemma startsWith_iff: "startsWith s t \<longleftrightarrow> (\<exists>post. s = t @ post)"
  by (induction s t rule: startsWith.induct) auto

lemma str_includes_iff: "str_includes s t \<longleftrightarrow> (\<exists>pre post. s = pre @ t @ post)"
proof (induction s)
  case Nil
  then show ?case by auto
next
  case (Cons c cs)
  show ?case
  proof
    assume "str_includes (c # cs) t"
    then consider "startsWith (c # cs) t" | "str_includes cs t" by auto
    then show "\<exists>pre post. c # cs = pre @ t @ post"
    proof cases
      case 1
      then obtain post where "c # cs = t @ post" by (auto simp: startsWith_iff)
      then have "c # cs = [] @ t @ post" by simp
      then show ?thesis by blast
    next
      case 2
      with Cons.IH obtain pre post where "cs = pre @ t @ post" by auto
      then have "c # cs = (c # pre) @ t @ post" by simp
      then show ?thesis by blast
    qed
  next
    assume "\<exists>pre post. c # cs = pre @ t @ post"
    then obtain pre post where e: "c # cs = pre @ t @ post" by blast
    show "str_includes (c # cs) t"
    proof (cases pre)
      case Nil
      with e have "startsWith (c # cs) t" by (auto simp: startsWith_iff)
      then show ?thesis by simp
    next
      case (Cons p ps)
      with e have "cs = ps @ t @ post" by simp
      with Cons.IH have "str_includes cs t" by blast
      then show ?thesis by simp
    qed
  qed
qed

text \<open>The head of a stable sort is the first element of least key.\<close>

lemma hd_sort_key_first_min:
  "xs \<noteq> [] \<Longrightarrow>
     \<exists>i<length xs. hd (sort_key f xs) = xs ! i
        \<and> (\<forall>x\<in>set xs. f (xs ! i) \<le> f x) \<and> (\<forall>j<i. f (xs ! i) < f (xs ! j))"
proof (induction xs)
  case Nil
  then show ?case by simp
next
  case (Cons x xs)
  show ?case
  proof (cases "xs = []")
    case True
    then show ?thesis by simp
  next
    case False
    with Cons.IH obtain i where i: "i < length xs" "hd (sort_key f xs) = xs ! i"
      "\<forall>y\<in>set xs. f (xs ! i) \<le> f y" "\<forall>j<i. f (xs ! i) < f (xs ! j)" by blast
    from False have ne: "sort_key f xs \<noteq> []" by (metis length_0_conv length_sort)
    then obtain y ys where ys: "sort_key f xs = y # ys" by (cases "sort_key f xs") auto
    with i have y: "y = xs ! i" by simp
    show ?thesis
    proof (cases "f x \<le> f (xs ! i)")
      case True
      then have "hd (sort_key f (x # xs)) = (x # xs) ! 0" by (simp add: ys y)
      moreover have "\<forall>z\<in>set (x # xs). f ((x # xs) ! 0) \<le> f z" using True i(3) by auto
      ultimately show ?thesis by (intro exI [of _ 0]) simp
    next
      case False
      then have h: "hd (sort_key f (x # xs)) = (x # xs) ! Suc i" by (simp add: ys y)
      have a: "\<forall>z\<in>set (x # xs). f ((x # xs) ! Suc i) \<le> f z" using False i(3) by auto
      have b: "\<forall>j<Suc i. f ((x # xs) ! Suc i) < f ((x # xs) ! j)"
      proof (intro allI impI)
        fix j assume "j < Suc i"
        then show "f ((x # xs) ! Suc i) < f ((x # xs) ! j)"
          using False i(4) by (cases j) auto
      qed
      from i(1) h a b show ?thesis by (intro exI [of _ "Suc i"]) simp
    qed
  qed
qed

section \<open>Voice matcher: scoring, selection, failure\<close>

lemma matchCount_product:
  "matchCount ts ds =
     length (filter (\<lambda>(t, d). str_includes d t \<or> str_includes t d) (List.product ts ds))"
  by (induction ts) (simp_all add: matchCount_def filter_map comp_def)

lemma score_bounds: "0 \<le> calculatePersonalityMatch ds ts \<and> calculatePersonalityMatch ds ts \<le> 1"
  by (simp add: calculatePersonalityMatch_def Let_def)

lemma candidates_of_filter: "\<exists>P. candidates_of cb pool = filter P pool"
proof (cases "accent (voice_profile cb)")
  case None
  then have "candidates_of cb pool =
      filter (\<lambda>v. (voice_gender v = gender cb \<or> voice_gender v = Neutral)
          \<and> (voice_age_range v = getAgeRangeFromAge (age cb)
              \<or> areAdjacentAgeRanges (voice_age_range v) (getAgeRangeFromAge (age cb)))) pool"
    by (simp add: candidates_of_def filterByGender_def filterByAgeRange_def Let_def conj_commute)
  then show ?thesis by blast
next
  case (Some a)
  show ?thesis
  proof (cases "a = []")
    case True
    with Some have "candidates_of cb pool =
      filter (\<lambda>v. (voice_gender v = gender cb \<or> voice_gender v = Neutral)
          \<and> (voice_age_range v = getAgeRangeFromAge (age cb)
              \<or> areAdjacentAgeRanges (voice_age_range v) (getAgeRangeFromAge (age cb)))) pool"
      by (simp add: candidates_of_def filterByGender_def filterByAgeRange_def Let_def conj_commute)
    then show ?thesis by blast
  next
    case False
    with Some have "candidates_of cb pool =
      filter (\<lambda>v. ((voice_gender v = gender cb \<or> voice_gender v = Neutral)
          \<and> (voice_age_range v = getAgeRangeFromAge (age cb)
              \<or> areAdjacentAgeRanges (voice_age_range v) (getAgeRangeFromAge (age cb))))
          \<and> (toLowerCase (voice_accent v) = toLowerCase a
              \<or> toLowerCase (voice_accent v) = ''neutral''
              \<or> toLowerCase (voice_accent v) = ''american'')) pool"
      by (simp add: candidates_of_def filterByGender_def filterByAgeRange_def
            filterByAccent_def Let_def conj_commute)
    then show ?thesis by blast
  qed
qed

lemma example_candidates: "candidates_of example_character example_pool = example_pool"
  by code_simp

lemma example_scores:
  "map (\<lambda>v. calculatePersonalityMatch (descriptors v) (tone (voice_profile example_character)))
     example_pool = [0, 1 / 2, 1 / 2]"
  by code_simp

text \<open>
  C3. The candidates are the voices of the pool that pass the filters, in pool order.
  Whenever there is one, the match returned is built from the candidate of highest
  score, and among candidates of equal score from the one that comes first. The score of
  a candidate is one half when the character has no tone tag or the voice no descriptor;
  otherwise it is the number of pairs (tone tag, descriptor), both in lower case, of
  which one contains the other, divided by the larger of the two tag counts, and capped
  at one. It always lies between zero and one. Nothing in the computation is random: the
  result is a function of the character and the pool.
\<close>

theorem voice_matcher_scores_and_selects:
  fixes cb :: CharacterBible and pool :: "Voice list"
  defines "cands \<equiv> candidates_of cb pool"
  defines "score \<equiv> \<lambda>v. calculatePersonalityMatch (descriptors v) (tone (voice_profile cb))"
  assumes nonempty: "cands \<noteq> []"
  shows "(\<exists>P. cands = filter P pool)
         \<and> (\<exists>i<length cands.
            matchCharacterToVoice cb pool =
              Inr \<lparr>match_voice_id = voice_ident (cands ! i),
                   match_voice_name = voice_label (cands ! i),
                   match_provider = voice_provider (cands ! i),
                   match_score = score (cands ! i)\<rparr>
            \<and> (\<forall>v\<in>set cands. score v \<le> score (cands ! i))
            \<and> (\<forall>j<i. score (cands ! j) < score (cands ! i)))
         \<and> (\<forall>v\<in>set cands.
               score v =
                 (if tone (voice_profile cb) = [] \<or> descriptors v = [] then 1 / 2
                  else min 1
                    (of_nat (length (filter
                        (\<lambda>(t, d). (\<exists>pre post. d = pre @ t @ post) \<or> (\<exists>pre post. t = pre @ d @ post))
                        (List.product (map toLowerCase (tone (voice_profile cb)))
                           (map toLowerCase (descriptors v)))))
                     / of_nat (max (length (tone (voice_profile cb))) (length (descriptors v)))))
               \<and> 0 \<le> score v \<and> score v \<le> 1)"
proof -
  let ?scored = "map (\<lambda>v. (v, score v)) cands"
  from nonempty have ne: "?scored \<noteq> []" by simp
  from hd_sort_key_first_min [OF ne, of "\<lambda>p. - snd p"]
  obtain i where i: "i < length ?scored"
    "hd (sort_key (\<lambda>p. - snd p) ?scored) = ?scored ! i"
    "\<forall>x\<in>set ?scored. - snd (?scored ! i) \<le> - snd x"
    "\<forall>j<i. - snd (?scored ! i) < - snd (?scored ! j)" by blast
  from i(1) have il: "i < length cands" by simp
  from ne have "sort_key (\<lambda>p. - snd p) ?scored \<noteq> []" by (metis length_0_conv length_sort)
  then obtain b bs where bs: "sort_key (\<lambda>p. - snd p) ?scored = b # bs"
    by (cases "sort_key (\<lambda>p. - snd p) ?scored") auto
  with i(2) il have b: "b = (cands ! i, score (cands ! i))" by simp
  have res: "matchCharacterToVoice cb pool =
              Inr \<lparr>match_voice_id = voice_ident (cands ! i),
                   match_voice_name = voice_label (cands ! i),
                   match_provider = voice_provider (cands ! i),
                   match_score = score (cands ! i)\<rparr>"
    using bs b
    by (simp add: matchCharacterToVoice_def sort_by_score_desc_def cands_def score_def)
  have best: "\<forall>v\<in>set cands. score v \<le> score (cands ! i)"
    using i(3) il by auto
  have first: "\<forall>j<i. score (cands ! j) < score (cands ! i)"
    using i(4) il by auto
  have formula: "score v =
                 (if tone (voice_profile cb) = [] \<or> descriptors v = [] then 1 / 2
                  else min 1
                    (of_nat (length (filter
                        (\<lambda>(t, d). (\<exists>pre post. d = pre @ t @ post) \<or> (\<exists>pre post. t = pre @ d @ post))
                        (List.product (map toLowerCase (tone (voice_profile cb)))
                           (map toLowerCase (descriptors v)))))
                     / of_nat (max (length (tone (voice_profile cb))) (length (descriptors v)))))
               \<and> 0 \<le> score v \<and> score v \<le> 1" for v
    using score_bounds [of "descriptors v" "tone (voice_profile cb)"]
    by (simp add: score_def calculatePersonalityMatch_def Let_def matchCount_product
          str_includes_iff)
  from candidates_of_filter [of cb pool] have sub: "\<exists>P. cands = filter P pool"
    by (simp add: cands_def)
  from sub il res best first formula show ?thesis by blast
qed

theorem voice_matcher_scores_and_selects_witness:
  "candidates_of example_character example_pool \<noteq> []
   \<and> map (\<lambda>v. calculatePersonalityMatch (descriptors v) (tone (voice_profile example_character)))
        (candidates_of example_character example_pool) = [0, 1 / 2, 1 / 2]
   \<and> matchCharacterToVoice example_character example_pool =
        Inr \<lparr>match_voice_id = ''v-warm'', match_voice_name = ''Wren'',
             match_provider = Elevenlabs, match_score = 1 / 2\<rparr>"
proof -
  let ?score = "\<lambda>v. calculatePersonalityMatch (descriptors v) (tone (voice_profile example_character))"
  have c: "candidates_of example_character example_pool = example_pool"
    by (rule example_candidates)
  have h: "candidates_of example_character example_pool \<noteq> []"
    unfolding c by (simp add: example_pool_def)
  have s: "map ?score example_pool = [0, 1 / 2, 1 / 2]" by (rule example_scores)
  have l: "length example_pool = 3" by (simp add: example_pool_def)
  have s0: "?score (example_pool ! 0) = 0" and s1: "?score (example_pool ! 1) = 1 / 2"
    and s2: "?score (example_pool ! 2) = 1 / 2"
    by code_simp+
  from voice_matcher_scores_and_selects [OF h] obtain i where i: "i < length example_pool"
    "matchCharacterToVoice example_character example_pool =
       Inr \<lparr>match_voice_id = voice_ident (example_pool ! i),
            match_voice_name = voice_label (example_pool ! i),
            match_provider = voice_provider (example_pool ! i),
            match_score = ?score (example_pool ! i)\<rparr>"
    "\<forall>v\<in>set example_pool. ?score v \<le> ?score (example_pool ! i)"
    "\<forall>j<i. ?score (example_pool ! j) < ?score (example_pool ! i)"
    unfolding c by blast
  from i(1) l consider "i = 0" | "i = 1" | "i = 2" by linarith
  then have "i = 1"
  proof cases
    case 1
    from l have "example_pool ! 1 \<in> set example_pool" by simp
    with i(3) have "?score (example_pool ! 1) \<le> ?score (example_pool ! i)" by blast
    with 1 s0 s1 show ?thesis by simp
  next
    case 2
    then show ?thesis .
  next
    case 3
    with i(4) have "?score (example_pool ! 1) < ?score (example_pool ! 2)" by simp
    with s1 s2 show ?thesis by simp
  qed
  with i(2) s1 have "matchCharacterToVoice example_character example_pool =
        Inr \<lparr>match_voice_id = ''v-warm'', match_voice_name = ''Wren'',
             match_provider = Elevenlabs, match_score = 1 / 2\<rparr>"
    by (simp add: example_pool_def)
  with h s c show ?thesis by simp
qed

text \<open>
  C4. Matching fails with the no-suitable-voice error exactly when one of the filter
  stages (gender, age bracket, or accent when the character names one) leaves no
  candidate; no default voice is ever substituted. In particular a female character
  matched against a pool of male voices only fails with that error.
\<close>

theorem matching_fails_when_a_filter_empties:
  "((\<exists>n. matchCharacterToVoice cb pool = Inl (NoSuitableVoice n)) \<longleftrightarrow>
      (filterByGender pool (gender cb) = []
       \<or> filterByAgeRange (filterByGender pool (gender cb)) (age cb) = []
       \<or> (\<exists>a. accent (voice_profile cb) = Some a \<and> a \<noteq> []
             \<and> filterByAccent (filterByAgeRange (filterByGender pool (gender cb)) (age cb)) a = [])))
   \<and> (gender cb = Female \<and> (\<forall>v\<in>set pool. voice_gender v = Male) \<longrightarrow>
        matchCharacterToVoice cb pool = Inl (NoSuitableVoice (bible_character_name cb)))"
proof -
  let ?g = "filterByGender pool (gender cb)"
  let ?a = "filterByAgeRange ?g (age cb)"
  have fails_iff: "(\<exists>n. matchCharacterToVoice cb pool = Inl (NoSuitableVoice n)) \<longleftrightarrow>
      candidates_of cb pool = []"
    and fails_name: "candidates_of cb pool = [] \<Longrightarrow>
      matchCharacterToVoice cb pool = Inl (NoSuitableVoice (bible_character_name cb))"
    by (auto simp: matchCharacterToVoice_def sort_by_score_desc_def Let_def
          split: list.splits)
       (metis length_0_conv length_map length_sort)
  have age_empty: "?g = [] \<Longrightarrow> ?a = []"
    by (simp add: filterByAgeRange_def)
  have accent_empty: "?a = [] \<Longrightarrow> filterByAccent ?a x = []" for x
    by (simp add: filterByAccent_def)
  have cands: "candidates_of cb pool = [] \<longleftrightarrow>
      (?g = [] \<or> ?a = []
       \<or> (\<exists>x. accent (voice_profile cb) = Some x \<and> x \<noteq> [] \<and> filterByAccent ?a x = []))"
    using age_empty accent_empty
    by (auto simp: candidates_of_def Let_def split: option.splits)
  have female: "?g = []" if "gender cb = Female" "\<forall>v\<in>set pool. voice_gender v = Male"
    using that by (auto simp: filterByGender_def filter_empty_conv)
  from fails_iff fails_name cands female show ?thesis by blast
qed

theorem matching_fails_when_a_filter_empties_witness:
  "gender example_character = Female \<and> age example_character = 30
   \<and> map voice_gender male_pool = [Male, Male]
   \<and> matchCharacterToVoice example_character male_pool = Inl (NoSuitableVoice ''Elena'')"
proof -
  have g: "gender example_character = Female" "age example_character = 30"
    "bible_character_name example_character = ''Elena''"
    by (simp_all add: example_character_def)
  have m: "\<forall>v\<in>set male_pool. voice_gender v = Male"
    by (simp add: male_pool_def)
  have p: "map voice_gender male_pool = [Male, Male]"
    by (simp add: male_pool_def)
  from matching_fails_when_a_filter_empties [of example_character male_pool] g m p
  show ?thesis by simp
qed

section \<open>Assembler: chapter markers and totals\<close>

lemma markers_loop_durations:
  "map marker_duration (markers_loop ns i t acc) = map marker_duration acc @ map normalized_duration ns"
  by (induction ns arbitrary: i t acc) simp_all

lemma markers_loop_numbers:
  "map marker_number (markers_loop ns i t acc) = map marker_number acc @ map (\<lambda>k. i + k + 1) [0..<length ns]"
proof (induction ns arbitrary: i t acc)
  case Nil
  then show ?case by simp
next
  case (Cons n ns)
  show ?case
    unfolding markers_loop.simps Cons.IH length_Cons map_upt_Suc
    by simp
qed

lemma markers_loop_starts:
  "map start_time (markers_loop ns i t acc) =
     map start_time acc @
     map (\<lambda>k. foldl js_add t (take k (map normalized_duration ns))) [0..<length ns]"
proof (induction ns arbitrary: i t acc)
  case Nil
  then show ?case by simp
next
  case (Cons n ns)
  show ?case
    unfolding markers_loop.simps Cons.IH length_Cons map_upt_Suc
    by simp
qed

lemma addChapterMarkers_length: "length (snd (addChapterMarkers ns)) = length ns"
  using markers_loop_durations [of ns 0 "Finite 0" "[]", THEN arg_cong, of length]
  by (simp add: addChapterMarkers_def)

lemma addChapterMarkers_starts:
  "map start_time (snd (addChapterMarkers ns)) =
     map (\<lambda>k. foldl js_add (Finite 0) (take k (map normalized_duration ns))) [0..<length ns]"
  by (simp add: addChapterMarkers_def markers_loop_starts)

lemma addChapterMarkers_durations:
  "map marker_duration (snd (addChapterMarkers ns)) = map normalized_duration ns"
  by (simp add: addChapterMarkers_def markers_loop_durations)

lemma addChapterMarkers_numbers:
  "map marker_number (snd (addChapterMarkers ns)) = [1..<Suc (length ns)]"
  by (simp add: addChapterMarkers_def markers_loop_numbers map_Suc_upt)

lemma calculateTotalDuration_sum:
  "calculateTotalDuration ns = foldl js_add (Finite 0) (map normalized_duration ns)"
  by (simp add: calculateTotalDuration_def foldl_map)

lemma calculateCost_sum: "calculateCost gs = foldl js_add (Finite 0) (map cost gs)"
  by (simp add: calculateCost_def foldl_map)

text \<open>Whole numbers below \<open>2\<^sup>5\<^sup>3\<close> are doubles, so their sums are exact up to that bound.\<close>

lemma bit_length_le: "n < 2 ^ k \<Longrightarrow> bit_length n \<le> int k"
proof (induction k arbitrary: n)
  case 0
  then show ?case by (subst bit_length.simps) simp
next
  case (Suc k)
  show ?case
  proof (cases "n \<le> 0")
    case True
    then show ?thesis by (subst bit_length.simps) simp
  next
    case False
    from Suc.prems have "n div 2 < 2 ^ k" by simp
    from Suc.IH [OF this] False show ?thesis by (subst bit_length.simps) simp
  qed
qed

lemma bit_length_1: "bit_length 1 = 1"
  by (simp add: bit_length.simps)

lemma round_half_even_of_int: "round_half_even (of_int z) = z"
  by (simp add: round_half_even_def)

lemma to_double_of_nat:
  assumes "n < 2 ^ 53"
  shows "to_double (of_nat n) = Finite (of_nat n)"
proof (cases "n = 0")
  case True
  then show ?thesis by (simp add: to_double_def)
next
  case False
  let ?a = "of_nat n :: rat"
  define e where "e = max (floor_log2 ?a) (- 1022)"
  have q: "quotient_of ?a = (int n, 1)"
    using quotient_of_int [of "int n"] by simp
  from assms have "int n < 2 ^ 53" by (metis of_nat_less_numeral_power_cancel_iff)
  then have "bit_length (int n) \<le> 53" using bit_length_le [of "int n" 53] by simp
  then have "floor_log2 ?a \<le> 52"
    by (simp add: floor_log2_def q bit_length_1 Let_def)
  then have e: "e \<le> 52" "- 1022 \<le> e" by (simp_all add: e_def)
  define k where "k = nat (52 - e)"
  have ulp: "pow2 (e - 52) = 1 / 2 ^ k"
  proof (cases "e = 52")
    case True
    then show ?thesis by (simp add: pow2_def k_def)
  next
    case False
    with e have "e - 52 < 0" by simp
    then show ?thesis by (simp add: pow2_def k_def)
  qed
  have "?a / pow2 (e - 52) = of_int (int n * 2 ^ k)"
    by (simp add: ulp)
  then have m: "round_half_even (?a / pow2 (e - 52)) = int n * 2 ^ k"
    using round_half_even_of_int [of "int n * 2 ^ k"] by simp
  have pos: "0 < ?a" using False by simp
  have a: "\<bar>?a\<bar> = ?a" by simp
  have E: "max (floor_log2 ?a) (- 1022) = e" by (simp add: e_def)
  have "to_double ?a = Finite (sgn ?a * (of_int (int n * 2 ^ k) * pow2 (e - 52)))"
    unfolding to_double_def Let_def a E m
    using False e by simp
  also have "\<dots> = Finite ?a"
    using pos by (simp add: ulp)
  finally show ?thesis .
qed

lemma sum_list_take_le: "sum_list (take k ds) \<le> sum_list (ds :: nat list)"
proof -
  have "sum_list ds = sum_list (take k ds) + sum_list (drop k ds)"
    by (metis append_take_drop_id sum_list_append)
  then show ?thesis by simp
qed

lemma whole_number_sum:
  "z + sum_list ds < 2 ^ 53 \<Longrightarrow>
     foldl js_add (Finite (of_nat z)) (map (\<lambda>d. Finite (of_nat d)) ds) =
       Finite (of_nat (z + sum_list ds))"
proof (induction ds arbitrary: z)
  case Nil
  then show ?case by simp
next
  case (Cons d ds)
  from Cons.prems have b: "z + d < 2 ^ 53" and r: "(z + d) + sum_list ds < 2 ^ 53"
    by simp_all
  have "js_add (Finite (of_nat z)) (Finite (of_nat d)) = Finite (of_nat (z + d))"
    using to_double_of_nat [OF b] by simp
  with Cons.IH [OF r] show ?case by (simp add: add.assoc)
qed

lemma whole_number_prefix_sums:
  assumes "sum_list ds < 2 ^ 53"
  shows "map (\<lambda>k. foldl js_add (Finite 0) (take k (map (\<lambda>d. Finite (of_nat d)) ds))) [0..<length ds] =
         map (\<lambda>k. Finite (of_nat (sum_list (take k ds)))) [0..<length ds]"
proof (rule map_cong [OF refl])
  fix k
  have "sum_list (take k ds) < 2 ^ 53"
    using sum_list_take_le [of k ds] assms by simp
  then have "foldl js_add (Finite (of_nat 0)) (map (\<lambda>d. Finite (of_nat d)) (take k ds)) =
      Finite (of_nat (0 + sum_list (take k ds)))"
    by (intro whole_number_sum) simp
  then show "foldl js_add (Finite 0) (take k (map (\<lambda>d. Finite (of_nat d)) ds)) =
      Finite (of_nat (sum_list (take k ds)))"
    by (simp add: take_map)
qed

lemma normalize_segment_duration:
  "normalize_segment now eng lufs w g = (w', Inr n) \<Longrightarrow> normalized_duration n = duration g"
  unfolding normalize_segment_def Let_def
  by (simp split: prod.splits sum.splits) auto

lemma normalizeAudio_loop_durations:
  "normalizeAudio_loop now eng lufs gs w acc = (w', Inr ns) \<Longrightarrow>
     map normalized_duration ns = map normalized_duration acc @ map duration gs"
proof (induction gs arbitrary: w acc)
  case Nil
  then show ?case by simp
next
  case (Cons g gs)
  from Cons.prems obtain w1 n where
    s: "normalize_segment now eng lufs w g = (w1, Inr n)"
    and r: "normalizeAudio_loop now eng lufs gs w1 (acc @ [n]) = (w', Inr ns)"
    by (simp split: prod.splits sum.splits)
  from Cons.IH [OF r] normalize_segment_duration [OF s] show ?case by simp
qed

text \<open>A book that is returned was built from a normalized list of the same durations.\<close>

lemma assembleAudiobook_success:
  assumes "snd (assembleAudiobook now eng lufs w params) = Inr book"
  shows "\<exists>ns. map normalized_duration ns = map duration (audio_segments params)
           \<and> markers book = snd (addChapterMarkers ns)
           \<and> total_duration book = calculateTotalDuration ns
           \<and> total_cost book = calculateCost (audio_segments params)"
proof -
  obtain w1 r1 where n: "normalizeAudio now eng lufs w (audio_segments params) = (w1, r1)"
    by (cases "normalizeAudio now eng lufs w (audio_segments params)")
  show ?thesis
  proof (cases r1)
    case (Inl e)
    with n assms show ?thesis by (simp add: assembleAudiobook_def)
  next
    case (Inr ns)
    obtain w2 r2 where m: "generateM4B now eng w1 (addChapterMarkers ns) = (w2, r2)"
      by (cases "generateM4B now eng w1 (addChapterMarkers ns)")
    from n Inr have d: "map normalized_duration ns = map duration (audio_segments params)"
      using normalizeAudio_loop_durations [of now eng lufs "audio_segments params" w "[]" w1 ns]
      by (simp add: normalizeAudio_def)
    show ?thesis
    proof (cases r2)
      case (Inl e)
      with n Inr m assms show ?thesis by (simp add: assembleAudiobook_def Let_def)
    next
      case (Inr m4b)
      with n \<open>r1 = Inr ns\<close> m assms
      have "book = \<lparr>mp3_file = generateMP3 (addChapterMarkers ns), m4b_file = m4b,
                     total_duration = calculateTotalDuration ns,
                     total_cost = calculateCost (audio_segments params),
                     markers = snd (addChapterMarkers ns),
                     metadata = assembly_metadata params\<rparr>"
        by (simp add: assembleAudiobook_def Let_def)
      with d show ?thesis by (intro exI [of _ ns]) simp
    qed
  qed
qed

text \<open>
  C6 as stated fails. Durations and costs are double-precision numbers and the assembler
  adds them one after the other, rounding after each addition, so a total is not in
  general the sum of the fragments' values. Three fragments that cost 0.1, 0.2 and 0.3
  (the doubles nearest to these) have the total cost 0.6000000000000001, which is neither
  the sum of the three values nor the double nearest to it, 0.6; the same fragments in
  the opposite order have the total cost 0.6. Likewise the third of three fragments with
  durations 0.1, 0.2 and 0.3 starts at 0.30000000000000004.
\<close>

theorem total_cost_is_a_rounded_running_sum:
  "map cost fractional_fragments =
     [Finite (3602879701896397 / 2 ^ 55), Finite (3602879701896397 / 2 ^ 54),
      Finite (5404319552844595 / 2 ^ 54)]
   \<and> calculateCost fractional_fragments = Finite (5404319552844596 / 2 ^ 53)
   \<and> calculateCost fractional_fragments \<noteq>
       Finite (3602879701896397 / 2 ^ 55 + 3602879701896397 / 2 ^ 54 + 5404319552844595 / 2 ^ 54)
   \<and> to_double (3602879701896397 / 2 ^ 55 + 3602879701896397 / 2 ^ 54 + 5404319552844595 / 2 ^ 54) =
       Finite (5404319552844595 / 2 ^ 53)
   \<and> calculateCost (rev fractional_fragments) = Finite (5404319552844595 / 2 ^ 53)
   \<and> map normalized_duration fractional_normalized = map cost fractional_fragments
   \<and> map start_time (snd (addChapterMarkers fractional_normalized)) =
       [Finite 0, Finite (3602879701896397 / 2 ^ 55), Finite (5404319552844596 / 2 ^ 54)]
   \<and> calculateTotalDuration fractional_normalized = Finite (5404319552844596 / 2 ^ 53)"
  by code_simp

text \<open>
  C6 (as amended). For every list of normalized fragments the assembler produces one
  chapter marker per fragment, numbered from one; the start offset of a marker is the
  running total of the durations of the fragments before it, added from 0 in list order
  in double precision, and its duration is the fragment's own. The total duration and
  the total cost are the running totals of all durations and of all costs, built the
  same way, also in the book that a successful assembly returns. When the durations are
  whole numbers whose sum is below \<open>2\<^sup>5\<^sup>3\<close>, no addition rounds: each start offset is the
  sum of the durations before it and the total duration is the sum of all durations. For
  durations 10, 20, 15 the start offsets are 0, 10, 30 and the total duration is 45.
\<close>

theorem chapter_markers_and_totals:
  "length (snd (addChapterMarkers ns)) = length ns
   \<and> map start_time (snd (addChapterMarkers ns)) =
       map (\<lambda>k. foldl js_add (Finite 0) (take k (map normalized_duration ns))) [0..<length ns]
   \<and> map marker_duration (snd (addChapterMarkers ns)) = map normalized_duration ns
   \<and> map marker_number (snd (addChapterMarkers ns)) = [1..<Suc (length ns)]
   \<and> calculateTotalDuration ns = foldl js_add (Finite 0) (map normalized_duration ns)
   \<and> calculateCost gs = foldl js_add (Finite 0) (map cost gs)
   \<and> (map normalized_duration ns = map (\<lambda>d. Finite (of_nat d)) ds \<and> sum_list ds < 2 ^ 53 \<longrightarrow>
        map start_time (snd (addChapterMarkers ns)) =
          map (\<lambda>k. Finite (of_nat (sum_list (take k ds)))) [0..<length ds]
        \<and> calculateTotalDuration ns = Finite (of_nat (sum_list ds)))
   \<and> (map normalized_duration ns = [Finite 10, Finite 20, Finite 15] \<longrightarrow>
        map start_time (snd (addChapterMarkers ns)) = [Finite 0, Finite 10, Finite 30]
        \<and> map marker_number (snd (addChapterMarkers ns)) = [1, 2, 3]
        \<and> calculateTotalDuration ns = Finite 45)
   \<and> (snd (assembleAudiobook now eng lufs w params) = Inr book \<longrightarrow>
        length (markers book) = length (audio_segments params)
        \<and> map start_time (markers book) =
            map (\<lambda>k. foldl js_add (Finite 0) (take k (map duration (audio_segments params))))
              [0..<length (audio_segments params)]
        \<and> map marker_duration (markers book) = map duration (audio_segments params)
        \<and> total_duration book = foldl js_add (Finite 0) (map duration (audio_segments params))
        \<and> total_cost book = foldl js_add (Finite 0) (map cost (audio_segments params)))"
proof -
  have whole: "map start_time (snd (addChapterMarkers ns)) =
          map (\<lambda>k. Finite (of_nat (sum_list (take k ds)))) [0..<length ds]
        \<and> calculateTotalDuration ns = Finite (of_nat (sum_list ds))"
    if h: "map normalized_duration ns = map (\<lambda>d. Finite (of_nat d)) ds" and b: "sum_list ds < 2 ^ 53"
    for ds
  proof -
    from h have "length (map normalized_duration ns) = length (map (\<lambda>d. Finite (of_nat d) :: number) ds)"
      by simp
    then have l: "length ns = length ds" by simp
    have t: "foldl js_add (Finite (of_nat 0)) (map (\<lambda>d. Finite (of_nat d)) ds) =
        Finite (of_nat (0 + sum_list ds))"
      using b by (intro whole_number_sum) simp
    show ?thesis
      unfolding addChapterMarkers_starts calculateTotalDuration_sum h l
        whole_number_prefix_sums [OF b]
      using t by simp
  qed
  have ex: "map start_time (snd (addChapterMarkers ns)) = [Finite 0, Finite 10, Finite 30]
        \<and> map marker_number (snd (addChapterMarkers ns)) = [1, 2, 3]
        \<and> calculateTotalDuration ns = Finite 45"
    if h: "map normalized_duration ns = [Finite 10, Finite 20, Finite 15]"
  proof -
    from h have "length (map normalized_duration ns) = 3" by simp
    then have l3: "length ns = 3" by simp
    have h': "map normalized_duration ns = map (\<lambda>d. Finite (of_nat d)) [10, 20, 15]"
      using h by simp
    have b: "sum_list [10, 20, 15 :: nat] < 2 ^ 53" by simp
    from whole [OF h' b] show ?thesis
      unfolding addChapterMarkers_numbers l3
      by (simp add: upt_rec)
  qed
  have asm: "length (markers book) = length (audio_segments params)
        \<and> map start_time (markers book) =
            map (\<lambda>k. foldl js_add (Finite 0) (take k (map duration (audio_segments params))))
              [0..<length (audio_segments params)]
        \<and> map marker_duration (markers book) = map duration (audio_segments params)
        \<and> total_duration book = foldl js_add (Finite 0) (map duration (audio_segments params))
        \<and> total_cost book = foldl js_add (Finite 0) (map cost (audio_segments params))"
    if h: "snd (assembleAudiobook now eng lufs w params) = Inr book"
  proof -
    from assembleAudiobook_success [OF h] obtain ms where
      d: "map normalized_duration ms = map duration (audio_segments params)"
      and m: "markers book = snd (addChapterMarkers ms)"
      and t: "total_duration book = calculateTotalDuration ms"
      and c: "total_cost book = calculateCost (audio_segments params)" by blast
    from d have l: "length ms = length (audio_segments params)"
      by (metis length_map)
    show ?thesis
      unfolding m t c addChapterMarkers_length addChapterMarkers_starts
        addChapterMarkers_durations calculateTotalDuration_sum calculateCost_sum d l
      by simp
  qed
  from addChapterMarkers_length addChapterMarkers_starts addChapterMarkers_durations
    addChapterMarkers_numbers calculateTotalDuration_sum calculateCost_sum whole ex asm
  show ?thesis by blast
qed

theorem chapter_markers_and_totals_witness:
  "map normalized_duration example_normalized = [Finite 10, Finite 20, Finite 15]
   \<and> map start_time (snd (addChapterMarkers example_normalized)) = [Finite 0, Finite 10, Finite 30]
   \<and> calculateTotalDuration example_normalized = Finite 45
   \<and> \<not> isl (snd (assembleAudiobook ticking_clock working_engine (- 23) empty_world example_assembly))
   \<and> total_duration (projr (snd (assembleAudiobook ticking_clock working_engine (- 23)
         empty_world example_assembly))) = Finite 45
   \<and> map start_time (markers (projr (snd (assembleAudiobook ticking_clock working_engine (- 23)
         empty_world example_assembly)))) = [Finite 0, Finite 10, Finite 30]
   \<and> map cost (audio_segments example_assembly) = [Finite (1 / 4), Finite (1 / 8), Finite (1 / 2)]
   \<and> total_cost (projr (snd (assembleAudiobook ticking_clock working_engine (- 23)
         empty_world example_assembly))) = Finite (7 / 8)"
proof -
  let ?r = "snd (assembleAudiobook ticking_clock working_engine (- 23) empty_world example_assembly)"
  have h1: "map normalized_duration example_normalized = [Finite 10, Finite 20, Finite 15]"
    by (simp add: example_normalized_def example_fragments_def)
  have ok: "\<not> isl ?r" by code_simp
  then obtain book where h2: "?r = Inr book" by (cases ?r) auto
  have segs: "map duration (audio_segments example_assembly) = [Finite 10, Finite 20, Finite 15]"
    by (simp add: example_assembly_def example_fragments_def)
  have sums: "to_double 10 = Finite 10" "to_double 30 = Finite 30" "to_double 45 = Finite 45"
    by code_simp+
  note T = chapter_markers_and_totals [of example_normalized "[]" "[10, 20, 15]" ticking_clock
      working_engine "- 23" empty_world example_assembly book]
  from T h1 have a: "map start_time (snd (addChapterMarkers example_normalized)) =
      [Finite 0, Finite 10, Finite 30]
    \<and> calculateTotalDuration example_normalized = Finite 45"
    by blast
  have costs: "map cost (audio_segments example_assembly) =
      [Finite (1 / 4), Finite (1 / 8), Finite (1 / 2)]"
    by (simp add: example_assembly_def example_fragments_def)
  have paid: "foldl js_add (Finite 0) [Finite (1 / 4), Finite (1 / 8), Finite (1 / 2)] = Finite (7 / 8)"
    by code_simp
  from T h2 have b: "total_duration book = foldl js_add (Finite 0) (map duration (audio_segments example_assembly))
    \<and> map start_time (markers book) =
        map (\<lambda>k. foldl js_add (Finite 0) (take k (map duration (audio_segments example_assembly))))
          [0..<length (audio_segments example_assembly)]"
    and c: "total_cost book = foldl js_add (Finite 0) (map cost (audio_segments example_assembly))"
    by blast+
  from c have c': "total_cost book = Finite (7 / 8)"
    unfolding costs paid .
  have l: "length (audio_segments example_assembly) = 3"
    by (simp add: example_assembly_def example_fragments_def)
  from h1 ok a b costs c' show ?thesis
    unfolding segs h2 l by (simp add: sums upt_rec)
qed

section \<open>Orchestrator: batches\<close>

lemma chunks_step: "0 < b \<Longrightarrow> xs \<noteq> [] \<Longrightarrow> chunks b xs = take b xs # chunks b (drop b xs)"
  by (subst chunks.simps) simp

lemma chunks_Nil: "chunks b [] = []"
  by (subst chunks.simps) simp

lemma concat_chunks: "0 < b \<Longrightarrow> concat (chunks b xs) = xs"
proof (induction b xs rule: chunks.induct)
  case (1 b xs)
  then show ?case
    by (cases "xs = []") (simp_all add: chunks_Nil chunks_step)
qed

lemma length_chunks_Suc:
  "0 < b \<Longrightarrow> length (chunks b xs) = (if xs = [] then 0 else Suc ((length xs - 1) div b))"
proof (induction b xs rule: chunks.induct)
  case (1 b xs)
  show ?case
  proof (cases "xs = []")
    case True
    then show ?thesis by (simp add: chunks_Nil)
  next
    case False
    with 1 have IH: "length (chunks b (drop b xs)) =
        (if drop b xs = [] then 0 else Suc ((length xs - b - 1) div b))" by simp
    show ?thesis
    proof (cases "drop b xs = []")
      case True
      with False 1(2) have "length xs - 1 < b" by (cases xs) auto
      with True False 1(2) IH show ?thesis by (simp add: chunks_step)
    next
      case d: False
      then have "b < length xs" by simp
      then have e: "length xs - 1 = (length xs - b - 1) + b" by simp
      have "(length xs - 1) div b = ((length xs - b - 1) + b) div b"
        by (rule arg_cong [where f = "\<lambda>m. m div b"]) (rule e)
      also have "\<dots> = Suc ((length xs - b - 1) div b)"
        using 1(2) by simp
      finally have "(length xs - 1) div b = Suc ((length xs - b - 1) div b)" .
      with d False 1(2) IH show ?thesis by (simp add: chunks_step)
    qed
  qed
qed

lemma length_chunks: "0 < b \<Longrightarrow> length (chunks b xs) = (length xs + b - 1) div b"
proof (cases "xs = []")
  case True
  assume "0 < b"
  with True show ?thesis by (simp add: chunks_Nil)
next
  case False
  assume b: "0 < b"
  from False have e: "length xs + b - 1 = (length xs - 1) + b" by (cases xs) auto
  have "(length xs + b - 1) div b = ((length xs - 1) + b) div b"
    by (rule arg_cong [where f = "\<lambda>m. m div b"]) (rule e)
  also have "\<dots> = Suc ((length xs - 1) div b)"
    using b by simp
  finally have "(length xs + b - 1) div b = Suc ((length xs - 1) div b)" .
  with False b show ?thesis by (simp add: length_chunks_Suc)
qed

lemma nth_chunks:
  "0 < b \<Longrightarrow> k < length (chunks b xs) \<Longrightarrow> chunks b xs ! k = take b (drop (k * b) xs)"
proof (induction b xs arbitrary: k rule: chunks.induct)
  case (1 b xs)
  show ?case
  proof (cases "xs = []")
    case True
    with 1 show ?thesis by (simp add: chunks_Nil)
  next
    case False
    with 1(2) have c: "chunks b xs = take b xs # chunks b (drop b xs)" by (simp add: chunks_step)
    show ?thesis
    proof (cases k)
      case 0
      with c show ?thesis by simp
    next
      case (Suc j)
      with 1(3) c have "j < length (chunks b (drop b xs))" by simp
      with 1(1) [of j] False 1(2) have "chunks b (drop b xs) ! j = take b (drop (j * b) (drop b xs))"
        by simp
      with c Suc show ?thesis by (simp add: add.commute)
    qed
  qed
qed

lemma chunk_bounds:
  "0 < b \<Longrightarrow> c \<in> set (chunks b xs) \<Longrightarrow> 0 < length c \<and> length c \<le> b"
proof (induction b xs rule: chunks.induct)
  case (1 b xs)
  show ?case
  proof (cases "xs = []")
    case True
    with 1 show ?thesis by (simp add: chunks_Nil)
  next
    case False
    with 1(2,3) have "c = take b xs \<or> c \<in> set (chunks b (drop b xs))"
      by (simp add: chunks_step)
    with 1(1,2) False show ?thesis by auto
  qed
qed

lemma chunk_full:
  "0 < b \<Longrightarrow> Suc k < length (chunks b xs) \<Longrightarrow> length (chunks b xs ! k) = b"
proof (induction b xs arbitrary: k rule: chunks.induct)
  case (1 b xs)
  show ?case
  proof (cases "xs = []")
    case True
    with 1 show ?thesis by (simp add: chunks_Nil)
  next
    case False
    with 1(2) have c: "chunks b xs = take b xs # chunks b (drop b xs)" by (simp add: chunks_step)
    show ?thesis
    proof (cases k)
      case 0
      with 1(3) c have "chunks b (drop b xs) \<noteq> []" by auto
      then have "drop b xs \<noteq> []" by (auto simp: chunks_Nil)
      with c 0 show ?thesis by simp
    next
      case (Suc j)
      with 1(3) c have "Suc j < length (chunks b (drop b xs))" by simp
      with 1(1) [of j] False 1(2) c Suc show ?thesis by simp
    qed
  qed
qed

lemma Promise_all_fulfilled:
  assumes "\<forall>x\<in>set os. \<not> isl x"
  shows "Promise_all t os = Inr (map projr os)"
proof -
  from assms have "filter (\<lambda>k. isl (os ! k)) [0..<length os] = []"
    by (auto simp: filter_empty_conv)
  then show ?thesis by (simp add: Promise_all_def)
qed

lemma Promise_all_rejected:
  assumes "\<exists>x\<in>set os. isl x"
  shows "\<exists>e. Promise_all t os = Inl e \<and> Inl e \<in> set os"
proof -
  from assms obtain k where k: "k < length os" "isl (os ! k)"
    by (auto simp: in_set_conv_nth)
  then have "k \<in> set (filter (\<lambda>k. isl (os ! k)) [0..<length os])" by simp
  then obtain j js where js: "filter (\<lambda>k. isl (os ! k)) [0..<length os] = j # js"
    by (cases "filter (\<lambda>k. isl (os ! k)) [0..<length os]") auto
  let ?m = "arg_min_list t (j # js)"
  have "?m \<in> set (j # js)" by (rule arg_min_list_in) simp
  with js have "?m \<in> set (filter (\<lambda>k. isl (os ! k)) [0..<length os])" by simp
  then have m: "?m < length os" "isl (os ! ?m)" by simp_all
  then have "Inl (projl (os ! ?m)) = os ! ?m" by simp
  with m(1) have "Inl (projl (os ! ?m)) \<in> set os" by (metis nth_mem)
  with js show ?thesis by (simp add: Promise_all_def)
qed

lemma Promise_all_Inr:
  assumes "Promise_all t os = Inr rs"
  shows "os = map Inr rs"
proof -
  have all: "\<forall>x\<in>set os. \<not> isl x"
  proof (rule ccontr)
    assume "\<not> (\<forall>x\<in>set os. \<not> isl x)"
    then have "\<exists>x\<in>set os. isl x" by blast
    from Promise_all_rejected [OF this, of t] assms show False by auto
  qed
  from Promise_all_fulfilled [OF all, of t] assms have "rs = map projr os" by simp
  with all show ?thesis by (simp add: map_idI)
qed

lemma slice_batch:
  assumes "0 \<le> i" "i < int (length xs)" "0 < b"
  shows "slice xs i (i + b) = take (nat b) (drop (nat i) xs)"
proof -
  have "nat (min (i + b) (int (length xs)) - i) = min (nat b) (length xs - nat i)"
    using assms by (auto simp: min_def)
  then show ?thesis
    using assms by (simp add: slice_def Let_def min_def)
qed

lemma loop_is_run_batches:
  assumes "0 < b" "0 \<le> i"
  shows "generateSegments_loop el ph t b segs as i run =
           Some (run_batches el ph t b (int (length segs)) as
                   (chunks (nat b) (drop (nat i) segs)) i run)"
  using assms(2)
proof (induction "length segs - nat i" arbitrary: i run rule: less_induct)
  case less
  show ?case
  proof (cases "i < int (length segs)")
    case False
    with less.prems have "drop (nat i) segs = []" by simp
    with False show ?thesis
      by (subst generateSegments_loop.simps) (simp add: chunks_Nil)
  next
    case True
    with less.prems have ne: "drop (nat i) segs \<noteq> []" by simp
    from less.prems assms(1) have d: "drop (nat b) (drop (nat i) segs) = drop (nat (i + b)) segs"
      by (simp add: nat_add_distrib add.commute)
    from True less.prems assms(1) have m: "length segs - nat (i + b) < length segs - nat i"
      by linarith
    from less.prems assms(1) have nn: "0 \<le> i + b" by simp
    note IH = less.hyps [OF m nn]
    have c: "chunks (nat b) (drop (nat i) segs) =
               take (nat b) (drop (nat i) segs) # chunks (nat b) (drop (nat (i + b)) segs)"
      using chunks_step [OF _ ne, of "nat b"] assms(1) d by simp
    show ?thesis
      by (subst generateSegments_loop.simps)
         (simp add: True slice_batch [OF less.prems True assms(1)] c IH Let_def
            split: sum.splits)
  qed
qed

text \<open>A run in which every call is fulfilled.\<close>

lemma run_batches_fulfilled:
  assumes "\<forall>s\<in>set (concat bs). \<not> isl (outcome el ph as s)"
  shows "snd (run_batches el ph t b n as bs i run) =
           Inr (results run @ map (\<lambda>s. projr (outcome el ph as s)) (concat bs))
         \<and> dispatched (fst (run_batches el ph t b n as bs i run)) = dispatched run @ bs"
  using assms
proof (induction bs arbitrary: i run)
  case Nil
  then show ?case by simp
next
  case (Cons c bs)
  from Cons.prems have "\<forall>x\<in>set (map (outcome el ph as) c). \<not> isl x" by simp
  from Promise_all_fulfilled [OF this, of "t i"]
  have p: "Promise_all (t i) (map (outcome el ph as) c) = Inr (map projr (map (outcome el ph as) c))" .
  from Cons.prems have rest: "\<forall>s\<in>set (concat bs). \<not> isl (outcome el ph as s)" by simp
  show ?case
    by (simp add: p Let_def Cons.IH [OF rest] comp_def)
qed

text \<open>A run in which some call is rejected.\<close>

lemma run_batches_rejected:
  assumes "\<exists>s\<in>set (concat bs). isl (outcome el ph as s)"
  shows "\<exists>e. snd (run_batches el ph t b n as bs i run) = Inl e
          \<and> Inl e \<in> outcome el ph as ` set (concat bs)"
  using assms
proof (induction bs arbitrary: i run)
  case Nil
  then show ?case by simp
next
  case (Cons c bs)
  show ?case
  proof (cases "\<exists>s\<in>set c. isl (outcome el ph as s)")
    case True
    then have "\<exists>x\<in>set (map (outcome el ph as) c). isl x" by simp
    from Promise_all_rejected [OF this, of "t i"] obtain e where
      e: "Promise_all (t i) (map (outcome el ph as) c) = Inl e"
         "Inl e \<in> set (map (outcome el ph as) c)" by blast
    then show ?thesis by (auto simp: Let_def)
  next
    case False
    then have "\<forall>x\<in>set (map (outcome el ph as) c). \<not> isl x" by simp
    from Promise_all_fulfilled [OF this, of "t i"]
    have p: "Promise_all (t i) (map (outcome el ph as) c) = Inr (map projr (map (outcome el ph as) c))" .
    from False Cons.prems have rest: "\<exists>s\<in>set (concat bs). isl (outcome el ph as s)" by auto
    let ?run = "run\<lparr>dispatched := dispatched run @ [c],
              results := results run @ map projr (map (outcome el ph as) c),
              progress := progress run @ [(i + int (length c), n)]\<rparr>"
    have step: "run_batches el ph t b n as (c # bs) i run =
        run_batches el ph t b n as bs (i + b) ?run"
      by (simp add: p Let_def)
    from Cons.IH [OF rest, of "i + b" ?run]
    obtain e where e: "snd (run_batches el ph t b n as bs (i + b) ?run) = Inl e"
      "Inl e \<in> outcome el ph as ` set (concat bs)" by blast
    from e(2) have "Inl e \<in> outcome el ph as ` set (concat (c # bs))" by auto
    with e(1) step show ?thesis by metis
  qed
qed

text \<open>
  The batches handed out are an initial part of the given ones, and every batch before
  the last one handed out was fulfilled entirely.
\<close>

lemma run_batches_dispatched:
  "\<exists>k\<le>length bs. dispatched (fst (run_batches el ph t b n as bs i run)) = dispatched run @ take k bs
      \<and> (\<forall>j. Suc j < k \<longrightarrow> (\<forall>s\<in>set (bs ! j). \<not> isl (outcome el ph as s)))"
proof (induction bs arbitrary: i run)
  case Nil
  then show ?case by simp
next
  case (Cons c bs)
  show ?case
  proof (cases "Promise_all (t i) (map (outcome el ph as) c)")
    case (Inl e)
    then have "dispatched (fst (run_batches el ph t b n as (c # bs) i run)) =
        dispatched run @ take 1 (c # bs)" by (simp add: Let_def)
    then show ?thesis by (intro exI [of _ 1]) simp
  next
    case (Inr rs)
    from Promise_all_Inr [OF Inr] have ok: "\<forall>s\<in>set c. \<not> isl (outcome el ph as s)"
      by (metis (no_types, lifting) image_iff list.set_map sum.disc(2) imageI)
    let ?run = "run\<lparr>dispatched := dispatched run @ [c],
                    results := results run @ rs,
                    progress := progress run @ [(i + int (length c), n)]\<rparr>"
    from Cons.IH [of "i + b" ?run] obtain k where k: "k \<le> length bs"
      "dispatched (fst (run_batches el ph t b n as bs (i + b) ?run)) = dispatched ?run @ take k bs"
      "\<forall>j. Suc j < k \<longrightarrow> (\<forall>s\<in>set (bs ! j). \<not> isl (outcome el ph as s))" by blast
    have d: "dispatched (fst (run_batches el ph t b n as (c # bs) i run)) =
        dispatched run @ take (Suc k) (c # bs)"
      using k(2) by (simp add: Inr Let_def)
    have a: "\<forall>j. Suc j < Suc k \<longrightarrow> (\<forall>s\<in>set ((c # bs) ! j). \<not> isl (outcome el ph as s))"
    proof (intro allI impI)
      fix j assume "Suc j < Suc k"
      then show "\<forall>s\<in>set ((c # bs) ! j). \<not> isl (outcome el ph as s)"
        using ok k(3) by (cases j) auto
    qed
    from k(1) d a show ?thesis by (intro exI [of _ "Suc k"]) simp
  qed
qed

lemma Promise_all_Inl:
  assumes "Promise_all t os = Inl e"
  shows "\<exists>x\<in>set os. isl x"
proof (rule ccontr)
  assume "\<not> (\<exists>x\<in>set os. isl x)"
  then have "\<forall>x\<in>set os. \<not> isl x" by blast
  from Promise_all_fulfilled [OF this, of t] assms show False by simp
qed

text \<open>
  Either every batch is handed out and the run returns fragments, or the run ends in an
  error at the last batch handed out, in which some call was rejected.
\<close>

lemma run_batches_stops:
  "(dispatched (fst (run_batches el ph t b n as bs i run)) = dispatched run @ bs
      \<and> \<not> isl (snd (run_batches el ph t b n as bs i run)))
   \<or> (isl (snd (run_batches el ph t b n as bs i run))
      \<and> (\<exists>s\<in>set (last (dispatched (fst (run_batches el ph t b n as bs i run)))).
            isl (outcome el ph as s)))"
proof (induction bs arbitrary: i run)
  case Nil
  then show ?case by simp
next
  case (Cons c bs)
  show ?case
  proof (cases "Promise_all (t i) (map (outcome el ph as) c)")
    case (Inl e)
    from Promise_all_Inl [OF Inl] have "\<exists>s\<in>set c. isl (outcome el ph as s)" by auto
    with Inl show ?thesis by (simp add: Let_def)
  next
    case (Inr rs)
    let ?run = "run\<lparr>dispatched := dispatched run @ [c],
                    results := results run @ rs,
                    progress := progress run @ [(i + int (length c), n)]\<rparr>"
    have step: "run_batches el ph t b n as (c # bs) i run = run_batches el ph t b n as bs (i + b) ?run"
      by (simp add: Inr Let_def)
    from Cons.IH [of "i + b" ?run] show ?thesis
      unfolding step by simp
  qed
qed

text \<open>One progress report is made per batch handed out in which every call was fulfilled.\<close>

lemma run_batches_completed:
  "length (progress (fst (run_batches el ph t b n as bs i run))) =
     length (progress run) +
     length (filter (list_all (\<lambda>s. \<not> isl (outcome el ph as s)))
               (drop (length (dispatched run)) (dispatched (fst (run_batches el ph t b n as bs i run)))))"
proof (induction bs arbitrary: i run)
  case Nil
  then show ?case by simp
next
  case (Cons c bs)
  show ?case
  proof (cases "Promise_all (t i) (map (outcome el ph as) c)")
    case (Inl e)
    from Promise_all_Inl [OF Inl] have "\<exists>s\<in>set c. isl (outcome el ph as s)" by auto
    then have "\<not> list_all (\<lambda>s. \<not> isl (outcome el ph as s)) c" by (simp add: list_all_iff)
    with Inl show ?thesis by (simp add: Let_def)
  next
    case (Inr rs)
    from Promise_all_Inr [OF Inr] have "\<forall>s\<in>set c. \<not> isl (outcome el ph as s)"
      by (metis (no_types, lifting) image_iff list.set_map sum.disc(2) imageI)
    then have ok: "list_all (\<lambda>s. \<not> isl (outcome el ph as s)) c" by (simp add: list_all_iff)
    let ?run = "run\<lparr>dispatched := dispatched run @ [c],
                    results := results run @ rs,
                    progress := progress run @ [(i + int (length c), n)]\<rparr>"
    let ?R = "run_batches el ph t b n as bs (i + b) ?run"
    have step: "run_batches el ph t b n as (c # bs) i run = ?R"
      by (simp add: Inr Let_def)
    from run_batches_dispatched [of bs el ph t b n as "i + b" ?run]
    obtain k where "dispatched (fst ?R) = (dispatched run @ [c]) @ take k bs" by auto
    then have d: "drop (length (dispatched run)) (dispatched (fst ?R)) = c # take k bs"
      "drop (length (dispatched ?run)) (dispatched (fst ?R)) = take k bs"
      by simp_all
    from Cons.IH [of "i + b" ?run] show ?thesis
      unfolding step d using ok by simp
  qed
qed

lemma run_batches_progress:
  assumes "0 < b" "0 \<le> i" "xs \<noteq> [] \<longrightarrow> int (length xs) = n - i"
  shows "\<exists>ps. progress (fst (run_batches el ph t b n as (chunks (nat b) xs) i run)) = progress run @ ps
           \<and> sorted (map fst ps) \<and> (\<forall>p\<in>set ps. i < fst p \<and> fst p \<le> n \<and> snd p = n)"
  using assms(2,3)
proof (induction "nat b" xs arbitrary: i run rule: chunks.induct)
  case (1 xs)
  show ?case
  proof (cases "xs = []")
    case True
    then show ?thesis by (simp add: chunks_Nil)
  next
    case False
    let ?c = "take (nat b) xs"
    from False assms(1) have c: "chunks (nat b) xs = ?c # chunks (nat b) (drop (nat b) xs)"
      by (simp add: chunks_step)
    from False "1.prems" have len: "int (length xs) = n - i" by simp
    show ?thesis
    proof (cases "Promise_all (t i) (map (outcome el ph as) ?c)")
      case (Inl e)
      then have "progress (fst (run_batches el ph t b n as (chunks (nat b) xs) i run)) = progress run @ []"
        by (simp add: c Let_def)
      then show ?thesis by (intro exI [of _ "[]"]) simp
    next
      case (Inr rs)
      let ?run = "run\<lparr>dispatched := dispatched run @ [?c],
                    results := results run @ rs,
                    progress := progress run @ [(i + int (length ?c), n)]\<rparr>"
      have step: "run_batches el ph t b n as (chunks (nat b) xs) i run =
          run_batches el ph t b n as (chunks (nat b) (drop (nat b) xs)) (i + b) ?run"
        by (simp add: c Inr Let_def)
      from assms(1) "1.prems" have nn: "0 \<le> i + b" by simp
      from len assms(1) have l2: "drop (nat b) xs \<noteq> [] \<longrightarrow> int (length (drop (nat b) xs)) = n - (i + b)"
        by auto
      from assms(1) False have g: "\<not> (nat b = 0 \<or> xs = [])" by simp
      from "1.hyps" [OF g nn l2, of ?run] obtain ps where ps:
        "progress (fst (run_batches el ph t b n as (chunks (nat b) (drop (nat b) xs)) (i + b) ?run)) =
           progress ?run @ ps"
        "sorted (map fst ps)" "\<forall>p\<in>set ps. i + b < fst p \<and> fst p \<le> n \<and> snd p = n" by blast
      from False len assms(1) have first: "i < i + int (length ?c)" "i + int (length ?c) \<le> n"
        "i + int (length ?c) \<le> i + b"
        by (auto simp: min_def)
      let ?ps = "(i + int (length ?c), n) # ps"
      have a: "progress (fst (run_batches el ph t b n as (chunks (nat b) xs) i run)) = progress run @ ?ps"
        using ps(1) by (simp add: step)
      have s: "sorted (map fst ?ps)"
      proof -
        have "\<forall>y\<in>set (map fst ps). i + int (length ?c) \<le> y"
        proof
          fix y assume "y \<in> set (map fst ps)"
          then obtain p where "p \<in> set ps" "y = fst p" by auto
          with ps(3) have "i + b < y" by blast
          with first(3) show "i + int (length ?c) \<le> y" by linarith
        qed
        with ps(2) show ?thesis by simp
      qed
      have r: "\<forall>p\<in>set ?ps. i < fst p \<and> fst p \<le> n \<and> snd p = n"
        using ps(3) first assms(1) by auto
      from a s r show ?thesis by blast
    qed
  qed
qed

lemma generateSegments_run_batches:
  "0 < b \<Longrightarrow> generateSegments el ph t b segs as =
     Some (run_batches el ph t b (int (length segs)) as (chunks (nat b) segs) 0
             \<lparr>results = [], dispatched = [], progress = []\<rparr>)"
  using loop_is_run_batches [of b 0 el ph t segs as] by (simp add: generateSegments_def)

text \<open>
  C5 as stated fails. A unit whose synthesis fails at both providers ends the run at its
  batch, so fewer than \<open>\<lceil>n / b\<rceil>\<close> batches are handed out and no fragment is returned:
  of five units in batches of two, with the third unit failing, two batches are handed
  out, not three.
\<close>

theorem failed_unit_ends_the_batches:
  "length five_units = 5
   \<and> length (chunks 2 five_units) = 3
   \<and> map_option (dispatched \<circ> fst)
       (generateSegments picky_service failing_service in_order 2 five_units example_assignments) =
       Some [[narration 0, narration 1], [narration 2, narration 3]]
   \<and> map_option snd
       (generateSegments picky_service failing_service in_order 2 five_units example_assignments) =
       Some (Inl AllProvidersFailed)"
  by code_simp

text \<open>
  C5 (as amended). With a positive batch size \<open>b\<close>, a run over \<open>n\<close> units returns,
  whatever the order in which the calls of a batch settle. The batches handed out are an
  initial part of the \<open>\<lceil>n / b\<rceil>\<close> consecutive batches of the unit list, and a batch is
  handed out only when every call of every earlier batch has been fulfilled: either all
  batches are handed out and the run returns fragments, or the run ends in an error at
  the last batch handed out, in which the synthesis of some unit failed. When every
  unit's synthesis succeeds, all \<open>\<lceil>n / b\<rceil>\<close> batches are handed out, each of \<open>b\<close> units
  but a possibly shorter, non-empty last one, and the run returns one fragment per unit,
  in the order of the units. Whenever a run returns fragments, there is one per unit and
  the \<open>j\<close>-th is the outcome of the \<open>j\<close>-th unit. Five units whose synthesis succeeds
  are handed out, in batches of two, as three batches.
\<close>

theorem batches_dispatched_in_order:
  assumes "0 < b"
  shows "\<exists>run r. generateSegments el ph t b segs as = Some (run, r)
     \<and> (\<exists>k\<le>length (chunks (nat b) segs). dispatched run = take k (chunks (nat b) segs))
     \<and> (\<forall>j. Suc j < length (dispatched run) \<longrightarrow>
            (\<forall>s\<in>set (dispatched run ! j). \<not> isl (outcome el ph as s)))
     \<and> ((dispatched run = chunks (nat b) segs \<and> \<not> isl r)
          \<or> (isl r \<and> (\<exists>s\<in>set (last (dispatched run)). isl (outcome el ph as s))))
     \<and> ((\<forall>s\<in>set segs. \<not> isl (outcome el ph as s)) \<longrightarrow>
           r = Inr (map (\<lambda>s. projr (outcome el ph as s)) segs)
         \<and> dispatched run = chunks (nat b) segs
         \<and> length (dispatched run) = (length segs + nat b - 1) div nat b
         \<and> (\<forall>j<length (dispatched run).
               dispatched run ! j = take (nat b) (drop (j * nat b) segs)
             \<and> 0 < length (dispatched run ! j) \<and> length (dispatched run ! j) \<le> nat b)
         \<and> (\<forall>j. Suc j < length (dispatched run) \<longrightarrow> length (dispatched run ! j) = nat b))
     \<and> (\<forall>rs. r = Inr rs \<longrightarrow>
           length rs = length segs
         \<and> (\<forall>j<length segs. outcome el ph as (segs ! j) = Inr (rs ! j)))
     \<and> (b = 2 \<and> length segs = 5 \<and> (\<forall>s\<in>set segs. \<not> isl (outcome el ph as s)) \<longrightarrow>
           length (dispatched run) = 3)"
proof -
  let ?bs = "chunks (nat b) segs"
  let ?run0 = "\<lparr>results = [], dispatched = [], progress = []\<rparr>"
  let ?R = "run_batches el ph t b (int (length segs)) as ?bs 0 ?run0"
  from assms have nb: "0 < nat b" by simp
  have eq: "generateSegments el ph t b segs as = Some (fst ?R, snd ?R)"
    using generateSegments_run_batches [OF assms] by simp
  from run_batches_dispatched [of ?bs el ph t b "int (length segs)" as 0 ?run0]
  obtain k where k: "k \<le> length ?bs" "dispatched (fst ?R) = take k ?bs"
    "\<forall>j. Suc j < k \<longrightarrow> (\<forall>s\<in>set (?bs ! j). \<not> isl (outcome el ph as s))" by auto
  have prefix: "\<exists>k\<le>length ?bs. dispatched (fst ?R) = take k ?bs"
    using k(1,2) by blast
  have await: "\<forall>j. Suc j < length (dispatched (fst ?R)) \<longrightarrow>
            (\<forall>s\<in>set (dispatched (fst ?R) ! j). \<not> isl (outcome el ph as s))"
  proof (intro allI impI)
    fix j assume "Suc j < length (dispatched (fst ?R))"
    with k(1,2) have "Suc j < k" by simp
    with k(2,3) show "\<forall>s\<in>set (dispatched (fst ?R) ! j). \<not> isl (outcome el ph as s)"
      by simp
  qed
  have stops: "(dispatched (fst ?R) = ?bs \<and> \<not> isl (snd ?R))
          \<or> (isl (snd ?R) \<and> (\<exists>s\<in>set (last (dispatched (fst ?R))). isl (outcome el ph as s)))"
    using run_batches_stops [of el ph t b "int (length segs)" as ?bs 0 ?run0] by simp
  have good: "snd ?R = Inr (map (\<lambda>s. projr (outcome el ph as s)) segs)
         \<and> dispatched (fst ?R) = ?bs
         \<and> length (dispatched (fst ?R)) = (length segs + nat b - 1) div nat b
         \<and> (\<forall>j<length (dispatched (fst ?R)).
               dispatched (fst ?R) ! j = take (nat b) (drop (j * nat b) segs)
             \<and> 0 < length (dispatched (fst ?R) ! j) \<and> length (dispatched (fst ?R) ! j) \<le> nat b)
         \<and> (\<forall>j. Suc j < length (dispatched (fst ?R)) \<longrightarrow> length (dispatched (fst ?R) ! j) = nat b)"
    if ok: "\<forall>s\<in>set segs. \<not> isl (outcome el ph as s)"
  proof -
    from ok have "\<forall>s\<in>set (concat ?bs). \<not> isl (outcome el ph as s)"
      by (simp only: concat_chunks [OF nb])
    from run_batches_fulfilled [OF this, of t b "int (length segs)" 0 ?run0]
    have r: "snd ?R = Inr (map (\<lambda>s. projr (outcome el ph as s)) segs)"
      and d: "dispatched (fst ?R) = ?bs"
      by (simp_all add: concat_chunks [OF nb])
    have sizes: "dispatched (fst ?R) ! j = take (nat b) (drop (j * nat b) segs)
             \<and> 0 < length (dispatched (fst ?R) ! j) \<and> length (dispatched (fst ?R) ! j) \<le> nat b"
      if "j < length (dispatched (fst ?R))" for j
    proof -
      from that d have j: "j < length ?bs" by simp
      then have "?bs ! j \<in> set ?bs" by (rule nth_mem)
      from chunk_bounds [OF nb this] nth_chunks [OF nb j] show ?thesis
        by (simp only: d)
    qed
    have full: "length (dispatched (fst ?R) ! j) = nat b"
      if "Suc j < length (dispatched (fst ?R))" for j
      using that chunk_full [OF nb, of j segs] by (simp add: d)
    have len: "length (dispatched (fst ?R)) = (length segs + nat b - 1) div nat b"
      by (simp only: d length_chunks [OF nb])
    from r d len sizes full show ?thesis by blast
  qed
  have ordered: "length rs = length segs
         \<and> (\<forall>j<length segs. outcome el ph as (segs ! j) = Inr (rs ! j))"
    if rs: "snd ?R = Inr rs" for rs
  proof -
    have ok: "\<forall>s\<in>set segs. \<not> isl (outcome el ph as s)"
    proof (rule ccontr)
      assume "\<not> (\<forall>s\<in>set segs. \<not> isl (outcome el ph as s))"
      then have "\<exists>s\<in>set (concat ?bs). isl (outcome el ph as s)"
        by (simp only: concat_chunks [OF nb]) blast
      from run_batches_rejected [OF this, of t b "int (length segs)" 0 ?run0] rs
      show False by auto
    qed
    with good rs have e: "rs = map (\<lambda>s. projr (outcome el ph as s)) segs" by simp
    from ok have "\<forall>j<length segs. \<not> isl (outcome el ph as (segs ! j))" by simp
    with e show ?thesis by simp
  qed
  have five: "length (dispatched (fst ?R)) = 3"
    if "b = 2" "length segs = 5" "\<forall>s\<in>set segs. \<not> isl (outcome el ph as s)"
  proof -
    from good [OF that(3)]
    have "length (dispatched (fst ?R)) = (length segs + nat b - 1) div nat b" by blast
    also have "\<dots> = 3" using that(1,2) by simp
    finally show ?thesis .
  qed
  from eq prefix await stops good ordered five show ?thesis by blast
qed

theorem batches_dispatched_in_order_witness:
  "(0::int) < 2
   \<and> list_all (\<lambda>s. \<not> isl (outcome working_service failing_service example_assignments s)) five_units
   \<and> length five_units = 5
   \<and> (\<exists>run rs. generateSegments working_service failing_service last_first 2 five_units
                   example_assignments = Some (run, Inr rs)
          \<and> length (dispatched run) = 3 \<and> length rs = 5)"
proof -
  have l: "length five_units = 5" by (simp add: five_units_def)
  have ok: "list_all (\<lambda>s. \<not> isl (outcome working_service failing_service example_assignments s)) five_units"
    by code_simp
  then have ok': "\<forall>s\<in>set five_units. \<not> isl (outcome working_service failing_service example_assignments s)"
    by (simp add: list_all_iff)
  have pos: "(0::int) < 2" by simp
  from batches_dispatched_in_order [OF pos, of working_service failing_service last_first
      five_units example_assignments]
  obtain run r where
    g: "generateSegments working_service failing_service last_first 2 five_units example_assignments
          = Some (run, r)"
    and s: "(\<forall>s\<in>set five_units. \<not> isl (outcome working_service failing_service example_assignments s)) \<longrightarrow>
           r = Inr (map (\<lambda>s. projr (outcome working_service failing_service example_assignments s)) five_units)"
    and f: "(2::int) = 2 \<and> length five_units = 5
           \<and> (\<forall>s\<in>set five_units. \<not> isl (outcome working_service failing_service example_assignments s)) \<longrightarrow>
           length (dispatched run) = 3"
    by blast
  from s ok' have r: "r = Inr (map (\<lambda>s. projr (outcome working_service failing_service example_assignments s)) five_units)"
    by blast
  from f l ok' have d: "length (dispatched run) = 3" by blast
  from g r d l ok pos show ?thesis by simp
qed

lemma find_assigned_provider_update:
  "find (\<lambda>a. P (assigned_character_name a)) (map (assigned_provider_update f) as) =
     map_option (assigned_provider_update f) (find (\<lambda>a. P (assigned_character_name a)) as)"
  by (induction as) simp_all

lemma findVoiceAssignment_provider_update:
  "findVoiceAssignment n (map (assigned_provider_update f) as) =
     map_option (assigned_provider_update f) (findVoiceAssignment n as)"
  unfolding findVoiceAssignment_def
  using find_assigned_provider_update [of "\<lambda>x. x = ''narrator''" f as]
    find_assigned_provider_update [of "\<lambda>x. toLowerCase x = toLowerCase (the n)" f as]
  by simp

lemma segment_params_provider_update:
  "segment_params seg (assigned_provider_update f a) = segment_params seg a"
  by (simp add: segment_params_def)

lemma generateSingleSegment_provider_update:
  "generateSingleSegment el ph seg (map (assigned_provider_update f) as) =
     generateSingleSegment el ph seg as"
  by (cases "findVoiceAssignment (character_name seg) as")
     (simp_all add: generateSingleSegment_def findVoiceAssignment_provider_update
        segment_params_provider_update)

lemma run_fails_when_a_unit_fails:
  assumes "0 < b" "seg \<in> set segs" "isl (outcome el ph as seg)"
  shows "\<exists>run e. generateSegments el ph t b segs as = Some (run, Inl e)"
proof -
  from assms(1) have nb: "0 < nat b" by simp
  let ?R = "run_batches el ph t b (int (length segs)) as (chunks (nat b) segs) 0
             \<lparr>results = [], dispatched = [], progress = []\<rparr>"
  from assms(2,3) have "\<exists>s\<in>set (concat (chunks (nat b) segs)). isl (outcome el ph as s)"
    by (simp only: concat_chunks [OF nb]) blast
  from run_batches_rejected [OF this, of t b "int (length segs)" 0
      "\<lparr>results = [], dispatched = [], progress = []\<rparr>"]
  obtain e where "snd ?R = Inl e" by blast
  then have "?R = (fst ?R, Inl e)" by (metis prod.collapse)
  with generateSegments_run_batches [OF assms(1), of el ph t segs as] show ?thesis by metis
qed

text \<open>
  C2. For a unit whose voice assignment is found, the first provider call goes to the
  primary provider, with the parameters of that assignment, whichever provider the
  assignment pins. If it succeeds, no other call is made. If it fails, exactly one more
  call is made, to the fallback provider, and a fragment it returns carries the
  fallback provider's name. If both fail, the unit's outcome is an error, and every run
  (of positive batch size) over a unit list that contains the unit ends in an error:
  no fragment is returned.
\<close>

theorem primary_then_fallback:
  assumes found: "findVoiceAssignment (character_name seg) as = Some a"
  shows "(\<forall>d dur c. el (segment_params seg a) = Some (d, dur, c) \<longrightarrow>
            generateSingleSegment el ph seg as =
              ([(Elevenlabs, segment_params seg a)],
               Inr \<lparr>audio_data = d, format = Mp3, duration = dur, provider = Elevenlabs, cost = c\<rparr>))
       \<and> (\<forall>d dur c. el (segment_params seg a) = None \<and> ph (segment_params seg a) = Some (d, dur, c) \<longrightarrow>
            generateSingleSegment el ph seg as =
              ([(Elevenlabs, segment_params seg a), (Playht, segment_params seg a)],
               Inr \<lparr>audio_data = d, format = Mp3, duration = dur, provider = Playht, cost = c\<rparr>))
       \<and> (el (segment_params seg a) = None \<and> ph (segment_params seg a) = None \<longrightarrow>
            generateSingleSegment el ph seg as =
              ([(Elevenlabs, segment_params seg a), (Playht, segment_params seg a)],
               Inl AllProvidersFailed)
          \<and> (\<forall>t b segs. 0 < b \<and> seg \<in> set segs \<longrightarrow>
                (\<exists>run e. generateSegments el ph t b segs as = Some (run, Inl e))))
       \<and> (\<forall>f. generateSingleSegment el ph seg (map (assigned_provider_update f) as) =
               generateSingleSegment el ph seg as)"
proof -
  let ?p = "segment_params seg a"
  have one: "generateSingleSegment el ph seg as =
              ([(Elevenlabs, ?p)],
               Inr \<lparr>audio_data = d, format = Mp3, duration = dur, provider = Elevenlabs, cost = c\<rparr>)"
    if "el ?p = Some (d, dur, c)" for d dur c
    using that found
    by (simp add: generateSingleSegment_def elevenlabs_generateSpeech_def Let_def)
  have two: "generateSingleSegment el ph seg as =
              ([(Elevenlabs, ?p), (Playht, ?p)],
               Inr \<lparr>audio_data = d, format = Mp3, duration = dur, provider = Playht, cost = c\<rparr>)"
    if "el ?p = None" "ph ?p = Some (d, dur, c)" for d dur c
    using that found
    by (simp add: generateSingleSegment_def elevenlabs_generateSpeech_def
          playht_generateSpeech_def Let_def)
  have none: "generateSingleSegment el ph seg as =
              ([(Elevenlabs, ?p), (Playht, ?p)], Inl AllProvidersFailed)"
    if "el ?p = None" "ph ?p = None"
    using that found
    by (simp add: generateSingleSegment_def elevenlabs_generateSpeech_def
          playht_generateSpeech_def Let_def)
  have run: "\<exists>run e. generateSegments el ph t b segs as = Some (run, Inl e)"
    if "el ?p = None" "ph ?p = None" "0 < b" "seg \<in> set segs" for t b segs
  proof -
    from none [OF that(1,2)] have "isl (outcome el ph as seg)" by simp
    from run_fails_when_a_unit_fails [OF that(3,4) this] show ?thesis .
  qed
  from one two none run generateSingleSegment_provider_update show ?thesis by blast
qed

theorem primary_then_fallback_witness:
  "findVoiceAssignment (character_name (narration 0)) example_assignments =
     Some (hd example_assignments)
   \<and> assigned_provider (hd example_assignments) = Xtts
   \<and> map fst (fst (generateSingleSegment failing_service working_service (narration 0)
         example_assignments)) = [Elevenlabs, Playht]
   \<and> map provider [projr (outcome failing_service working_service example_assignments (narration 0))]
       = [Playht]
   \<and> \<not> isl (outcome failing_service working_service example_assignments (narration 0))
   \<and> fst (generateSingleSegment failing_service failing_service (narration 0) example_assignments) =
       [(Elevenlabs, segment_params (narration 0) (hd example_assignments)),
        (Playht, segment_params (narration 0) (hd example_assignments))]
   \<and> outcome failing_service failing_service example_assignments (narration 0) = Inl AllProvidersFailed"
proof -
  let ?a = "hd example_assignments"
  let ?p = "segment_params (narration 0) ?a"
  have h: "findVoiceAssignment (character_name (narration 0)) example_assignments = Some ?a"
    by code_simp
  have x: "assigned_provider ?a = Xtts" by (simp add: example_assignments_def)
  have f: "failing_service ?p = None" by (simp add: failing_service_def)
  have w: "working_service ?p = Some (''audio of '' @ speech_text ?p, Finite 3, Finite (1 / 64))"
    by (simp add: working_service_def)
  note T1 = primary_then_fallback [OF h, of failing_service working_service]
  note T2 = primary_then_fallback [OF h, of failing_service failing_service]
  from T1 f w have a: "generateSingleSegment failing_service working_service (narration 0)
      example_assignments =
        ([(Elevenlabs, ?p), (Playht, ?p)],
         Inr \<lparr>audio_data = ''audio of '' @ speech_text ?p, format = Mp3, duration = Finite 3,
              provider = Playht, cost = Finite (1 / 64)\<rparr>)"
    by blast
  from T2 f have b: "generateSingleSegment failing_service failing_service (narration 0)
      example_assignments = ([(Elevenlabs, ?p), (Playht, ?p)], Inl AllProvidersFailed)"
    by blast
  from h x show ?thesis
    unfolding a b by simp
qed

section \<open>Orchestrator: voice assignments\<close>

text \<open>Lower-casing identifies exactly the names that are equal up to the case of their letters.\<close>

lemma code_unit_inj: "code_unit c = code_unit d \<longleftrightarrow> c = d"
  by (simp add: code_unit_def)

lemma code_unit_char_of: "n < 256 \<Longrightarrow> code_unit (char_of n) = n"
  by (simp add: code_unit_def)

lemma toLowerChar_code:
  "code_unit (toLowerChar c) = (if isCapital c then code_unit c + 32 else code_unit c)"
  by (auto simp: toLowerChar_def isCapital_def Let_def code_unit_char_of)

lemma toLowerChar_eq_iff: "toLowerChar c = toLowerChar d \<longleftrightarrow> same_letter c d"
proof -
  have "toLowerChar c = toLowerChar d \<longleftrightarrow> code_unit (toLowerChar c) = code_unit (toLowerChar d)"
    by (simp only: code_unit_inj)
  also have "\<dots> \<longleftrightarrow> same_letter c d"
    unfolding toLowerChar_code same_letter_def small_form_of_def code_unit_inj [of c d, symmetric]
    by (auto simp: isCapital_def)
  finally show ?thesis .
qed

lemma toLowerCase_eq_iff: "toLowerCase s = toLowerCase t \<longleftrightarrow> equal_ignoring_case s t"
  unfolding toLowerCase_def equal_ignoring_case_def
  by (induction s arbitrary: t) (auto simp: toLowerChar_eq_iff list_all2_Cons1 Cons_eq_map_conv)

text \<open>
  C8. The voice assignment of a unit is resolved before anything else is done for it. A
  unit with no speaker (none, or an empty name) resolves to the first assignment whose
  character name is exactly \<open>narrator\<close>. A unit with a named speaker resolves to the
  first assignment whose character name is the speaker's up to the case of its letters
  (the code compares the two names in lower case), so a speaker spelled JOHN resolves to
  the assignment of John, and two spellings that differ in case only resolve alike. A
  unit that resolves to no assignment ends in the missing-assignment error with no
  provider call made, and a run (of positive batch size) over a unit list that contains
  it ends in an error. When an assignment is found, every provider call carries the
  parameters of that assignment.
\<close>

theorem voice_assignment_resolved_first:
  "((character_name seg = None \<or> character_name seg = Some []) \<longrightarrow>
      findVoiceAssignment (character_name seg) as =
        find (\<lambda>a. assigned_character_name a = ''narrator'') as)
   \<and> (\<forall>n. character_name seg = Some n \<and> n \<noteq> [] \<longrightarrow>
        findVoiceAssignment (character_name seg) as =
          find (\<lambda>a. equal_ignoring_case (assigned_character_name a) n) as
        \<and> findVoiceAssignment (character_name seg) as =
          find (\<lambda>a. toLowerCase (assigned_character_name a) = toLowerCase n) as
        \<and> (\<forall>m. m \<noteq> [] \<and> equal_ignoring_case m n \<longrightarrow>
              findVoiceAssignment (Some m) as = findVoiceAssignment (Some n) as)
        \<and> (\<forall>m. m \<noteq> [] \<and> toLowerCase m = toLowerCase n \<longrightarrow>
              findVoiceAssignment (Some m) as = findVoiceAssignment (Some n) as))
   \<and> (\<forall>a. findVoiceAssignment (character_name seg) as = Some a \<longrightarrow>
        a \<in> set as
        \<and> fst (generateSingleSegment el ph seg as) \<noteq> []
        \<and> (\<forall>c\<in>set (fst (generateSingleSegment el ph seg as)). snd c = segment_params seg a))
   \<and> (findVoiceAssignment (character_name seg) as = None \<longrightarrow>
        generateSingleSegment el ph seg as = ([], Inl (NoVoiceAssignment (segment_id seg)))
        \<and> (\<forall>t b segs. 0 < b \<and> seg \<in> set segs \<longrightarrow>
              (\<exists>run e. generateSegments el ph t b segs as = Some (run, Inl e))))"
proof -
  have narrator: "findVoiceAssignment (character_name seg) as =
        find (\<lambda>a. assigned_character_name a = ''narrator'') as"
    if "character_name seg = None \<or> character_name seg = Some []"
    using that by (auto simp: findVoiceAssignment_def)
  have named: "findVoiceAssignment (character_name seg) as =
          find (\<lambda>a. equal_ignoring_case (assigned_character_name a) n) as
        \<and> findVoiceAssignment (character_name seg) as =
          find (\<lambda>a. toLowerCase (assigned_character_name a) = toLowerCase n) as
        \<and> (\<forall>m. m \<noteq> [] \<and> equal_ignoring_case m n \<longrightarrow>
              findVoiceAssignment (Some m) as = findVoiceAssignment (Some n) as)
        \<and> (\<forall>m. m \<noteq> [] \<and> toLowerCase m = toLowerCase n \<longrightarrow>
              findVoiceAssignment (Some m) as = findVoiceAssignment (Some n) as)"
    if "character_name seg = Some n" "n \<noteq> []" for n
    using that by (simp add: findVoiceAssignment_def toLowerCase_eq_iff [symmetric])
  have found: "a \<in> set as
        \<and> fst (generateSingleSegment el ph seg as) \<noteq> []
        \<and> (\<forall>c\<in>set (fst (generateSingleSegment el ph seg as)). snd c = segment_params seg a)"
    if f: "findVoiceAssignment (character_name seg) as = Some a" for a
  proof -
    from f have "a \<in> set as"
      by (auto simp: findVoiceAssignment_def find_Some_iff split: if_splits)
    moreover from f have "fst (generateSingleSegment el ph seg as) \<noteq> []
        \<and> (\<forall>c\<in>set (fst (generateSingleSegment el ph seg as)). snd c = segment_params seg a)"
      by (simp add: generateSingleSegment_def Let_def split: sum.splits)
    ultimately show ?thesis by simp
  qed
  have missing: "generateSingleSegment el ph seg as = ([], Inl (NoVoiceAssignment (segment_id seg)))
        \<and> (\<forall>t b segs. 0 < b \<and> seg \<in> set segs \<longrightarrow>
              (\<exists>run e. generateSegments el ph t b segs as = Some (run, Inl e)))"
    if m: "findVoiceAssignment (character_name seg) as = None"
  proof -
    from m have g: "generateSingleSegment el ph seg as =
        ([], Inl (NoVoiceAssignment (segment_id seg)))"
      by (simp add: generateSingleSegment_def)
    then have "isl (outcome el ph as seg)" by simp
    with run_fails_when_a_unit_fails [of _ seg _ el ph as] g show ?thesis by blast
  qed
  from narrator named found missing show ?thesis by blast
qed

theorem voice_assignment_resolved_first_witness:
  "character_name (narration 0) = None
   \<and> findVoiceAssignment (character_name (narration 0)) example_assignments =
       Some (hd example_assignments)
   \<and> assigned_character_name (hd example_assignments) = ''narrator''
   \<and> character_name line_of_john = Some ''JOHN''
   \<and> findVoiceAssignment (character_name line_of_john) example_assignments =
       Some (example_assignments ! 1)
   \<and> assigned_character_name (example_assignments ! 1) = ''John''
   \<and> findVoiceAssignment (Some ''JOHN'') example_assignments =
       findVoiceAssignment (Some ''john'') example_assignments
   \<and> findVoiceAssignment (character_name line_of_john) [hd example_assignments] = None
   \<and> generateSingleSegment working_service working_service line_of_john [hd example_assignments] =
       ([], Inl (NoVoiceAssignment ''ch1_seg_5''))"
proof -
  have n: "character_name (narration 0) = None" by (simp add: narration_def)
  have j: "character_name line_of_john = Some ''JOHN''" "segment_id line_of_john = ''ch1_seg_5''"
    by (simp_all add: line_of_john_def)
  have lc: "equal_ignoring_case ''john'' ''JOHN''" by code_simp
  have f: "find (\<lambda>a. assigned_character_name a = ''narrator'') example_assignments =
      Some (hd example_assignments)"
    by (simp add: example_assignments_def)
  have fj: "find (\<lambda>a. equal_ignoring_case (assigned_character_name a) ''JOHN'') example_assignments =
      Some (example_assignments ! 1)"
    by code_simp
  have hn: "assigned_character_name (hd example_assignments) = ''narrator''"
    by (simp add: example_assignments_def)
  have hj: "assigned_character_name (example_assignments ! 1) = ''John''"
    by (simp add: example_assignments_def)
  have no: "findVoiceAssignment (character_name line_of_john) [hd example_assignments] = None"
    by code_simp
  note A = voice_assignment_resolved_first [of "narration 0" example_assignments]
  note B = voice_assignment_resolved_first [of line_of_john example_assignments]
  note C = voice_assignment_resolved_first [of line_of_john "[hd example_assignments]"
      working_service working_service]
  from A n f have a: "findVoiceAssignment (character_name (narration 0)) example_assignments =
       Some (hd example_assignments)" by simp
  from B have B': "\<forall>n. character_name line_of_john = Some n \<and> n \<noteq> [] \<longrightarrow>
        findVoiceAssignment (character_name line_of_john) example_assignments =
          find (\<lambda>a. equal_ignoring_case (assigned_character_name a) n) example_assignments
        \<and> (\<forall>m. m \<noteq> [] \<and> equal_ignoring_case m n \<longrightarrow>
              findVoiceAssignment (Some m) example_assignments =
              findVoiceAssignment (Some n) example_assignments)"
    by blast
  from B' [rule_format, of "''JOHN''"] j(1)
  have bj: "findVoiceAssignment (character_name line_of_john) example_assignments =
          find (\<lambda>a. equal_ignoring_case (assigned_character_name a) ''JOHN'') example_assignments"
    and bm: "\<forall>m. m \<noteq> [] \<and> equal_ignoring_case m ''JOHN'' \<longrightarrow>
              findVoiceAssignment (Some m) example_assignments =
              findVoiceAssignment (Some ''JOHN'') example_assignments"
    by simp_all
  from bj fj have b1: "findVoiceAssignment (character_name line_of_john) example_assignments =
       Some (example_assignments ! 1)" by simp
  from bm [rule_format, of "''john''"] lc
  have b2: "findVoiceAssignment (Some ''JOHN'') example_assignments =
       findVoiceAssignment (Some ''john'') example_assignments"
    by simp
  from C no j(2) have c: "generateSingleSegment working_service working_service line_of_john
       [hd example_assignments] = ([], Inl (NoVoiceAssignment ''ch1_seg_5''))"
    by simp
  from n a hn j(1) b1 hj b2 no c show ?thesis by blast
qed

section \<open>Orchestrator: progress events\<close>

lemma Math_round_mono: "x \<le> y \<Longrightarrow> Math_round x \<le> Math_round y"
  by (simp add: Math_round_def floor_mono)

lemma percent_bounds:
  assumes "0 < c" "c \<le> n"
  shows "10 \<le> percent_complete (segment_progress (c, n))
         \<and> percent_complete (segment_progress (c, n)) \<le> 90"
proof -
  from assms have n: "0 < n" by simp
  define r :: rat where "r = of_int c / of_int n"
  from assms n have "0 \<le> r" "r \<le> 1" by (simp_all add: r_def)
  then have "(10::rat) \<le> 10 + r * 80" "10 + r * 80 \<le> 90" by linarith+
  then have "Math_round 10 \<le> Math_round (10 + r * 80)" "Math_round (10 + r * 80) \<le> Math_round 90"
    by (simp_all only: Math_round_mono)
  moreover have "Math_round 10 = 10" "Math_round 90 = 90"
    by code_simp+
  moreover have "percent_complete (segment_progress (c, n)) = Math_round (10 + r * 80)"
    by (simp only: segment_progress_def Let_def fst_conv snd_conv r_def
          ProgressUpdate.select_convs)
  ultimately show ?thesis by simp
qed

lemma percent_mono:
  assumes "0 < n" "c \<le> d"
  shows "percent_complete (segment_progress (c, n)) \<le> percent_complete (segment_progress (d, n))"
proof -
  define r :: rat where "r = of_int c / of_int n"
  define s :: rat where "s = of_int d / of_int n"
  from assms have "r \<le> s"
    by (simp add: r_def s_def divide_right_mono)
  then have "10 + r * 80 \<le> 10 + s * 80" by linarith
  then have "Math_round (10 + r * 80) \<le> Math_round (10 + s * 80)"
    by (rule Math_round_mono)
  moreover have "percent_complete (segment_progress (c, n)) = Math_round (10 + r * 80)"
    "percent_complete (segment_progress (d, n)) = Math_round (10 + s * 80)"
    by (simp_all only: segment_progress_def Let_def fst_conv snd_conv r_def s_def
          ProgressUpdate.select_convs)
  ultimately show ?thesis by simp
qed

lemma sorted_percents:
  assumes "sorted (map fst ps)" "\<forall>p\<in>set ps. 0 < fst p \<and> fst p \<le> n \<and> snd p = n"
  shows "sorted (map (\<lambda>p. percent_complete (segment_progress p)) ps)"
  using assms
proof (induction ps)
  case Nil
  then show ?case by simp
next
  case (Cons p ps)
  from Cons.prems have p: "0 < fst p" "fst p \<le> n" "snd p = n" by simp_all
  then have n: "0 < n" by simp
  have "percent_complete (segment_progress p) \<le> percent_complete (segment_progress q)"
    if "q \<in> set ps" for q
  proof -
    from that Cons.prems have "fst p \<le> fst q" "snd q = n" by auto
    with percent_mono [OF n, of "fst p" "fst q"] p(3) show ?thesis
      by (metis prod.collapse)
  qed
  with Cons show ?case by simp
qed


lemma percents_in_range:
  assumes "\<forall>p\<in>set ps. 0 < fst p \<and> fst p \<le> n \<and> snd p = n"
  shows "\<forall>x\<in>set (map (\<lambda>p. percent_complete (segment_progress p)) ps). 10 \<le> x \<and> x \<le> 90"
proof
  fix x assume "x \<in> set (map (\<lambda>p. percent_complete (segment_progress p)) ps)"
  then obtain p where p: "p \<in> set ps" "x = percent_complete (segment_progress p)" by auto
  with assms have "0 < fst p" "fst p \<le> snd p" by auto
  from percent_bounds [OF this] p(2) show "10 \<le> x \<and> x \<le> 90" by simp
qed

text \<open>
  C9 (as amended). In a run of positive batch size, the events emitted before any error
  event carry percent-complete values that never decrease: 5 at segmentation, 10 at the
  start of generation, then one value between 10 and 90 for each batch handed out in
  which every unit was synthesized, and, when generation succeeded, 95 at finalization
  and 100 at completion. A run that fails emits one more event, the last one, of stage
  \<open>error\<close> and percent-complete 0.
\<close>

theorem progress_monotone_until_error:
  assumes "0 < b"
  shows "\<exists>events r run g mid.
       generateAudiobook el ph t b q params = Some (events, r)
     \<and> generateSegments el ph t b (segmentChapters (chapters params)) (voice_assignments params) =
         Some (run, g)
     \<and> length mid =
         length (filter (list_all (\<lambda>s. \<not> isl (outcome el ph (voice_assignments params) s)))
                   (dispatched run))
     \<and> sorted mid
     \<and> list_all (\<lambda>x. 10 \<le> x \<and> x \<le> 90) mid
     \<and> (isl g \<longrightarrow> isl r)
     \<and> (\<not> isl r \<longrightarrow>
           map percent_complete events = [5, 10] @ mid @ [95, 100]
         \<and> map stage events =
             [Analyzing_chapters, Generating_audio] @ replicate (length mid) Generating_audio
               @ [Finalizing, Complete]
         \<and> sorted (map percent_complete events)
         \<and> percent_complete (last events) = 100
         \<and> list_all (\<lambda>e. stage e \<noteq> Error) events)
     \<and> (isl r \<longrightarrow>
           map percent_complete events =
             (if isl g then [5, 10] @ mid @ [0] else [5, 10] @ mid @ [95, 100, 0])
         \<and> map stage events =
             (if isl g
              then [Analyzing_chapters, Generating_audio] @ replicate (length mid) Generating_audio
                     @ [Error]
              else [Analyzing_chapters, Generating_audio] @ replicate (length mid) Generating_audio
                     @ [Finalizing, Complete, Error])
         \<and> events \<noteq> []
         \<and> sorted (map percent_complete (butlast events))
         \<and> list_all (\<lambda>e. stage e \<noteq> Error) (butlast events)
         \<and> stage (last events) = Error
         \<and> percent_complete (last events) = 0)"
proof -
  let ?segs = "segmentChapters (chapters params)"
  let ?as = "voice_assignments params"
  let ?run0 = "\<lparr>results = [], dispatched = [], progress = []\<rparr>"
  let ?R = "run_batches el ph t b (int (length ?segs)) ?as (chunks (nat b) ?segs) 0 ?run0"
  let ?e1 = "\<lparr>stage = Analyzing_chapters, percent_complete = 5,
               current_segment = None, total_segments = None\<rparr>"
  let ?e2 = "\<lparr>stage = Generating_audio, percent_complete = 10,
               current_segment = Some 0, total_segments = Some (int (length ?segs))\<rparr>"
  let ?e3 = "\<lparr>stage = Finalizing, percent_complete = 95,
               current_segment = None, total_segments = None\<rparr>"
  let ?e4 = "\<lparr>stage = Complete, percent_complete = 100,
               current_segment = None, total_segments = None\<rparr>"
  let ?err = "\<lparr>stage = Error, percent_complete = 0,
               current_segment = None, total_segments = None\<rparr>"
  have gs: "generateSegments el ph t b ?segs ?as = Some (fst ?R, snd ?R)"
    using generateSegments_run_batches [OF assms, of el ph t ?segs ?as] by simp
  from run_batches_progress [OF assms, of 0 ?segs "int (length ?segs)" el ph t ?as ?run0]
  obtain ps where ps: "progress (fst ?R) = ps" "sorted (map fst ps)"
    "\<forall>p\<in>set ps. 0 < fst p \<and> fst p \<le> int (length ?segs) \<and> snd p = int (length ?segs)"
    by auto
  let ?mid = "map segment_progress ps"
  define mid where "mid = map percent_complete ?mid"
  have mid_sorted: "sorted mid"
    using sorted_percents [OF ps(2,3)] by (simp add: comp_def mid_def)
  have mid_range: "\<forall>x\<in>set mid. 10 \<le> x \<and> x \<le> 90"
    using percents_in_range [OF ps(3)] by (simp add: comp_def mid_def)
  then have mid_range': "list_all (\<lambda>x. 10 \<le> x \<and> x \<le> 90) mid"
    by (simp add: list_all_iff)
  have mid_stage: "list_all (\<lambda>e. stage e \<noteq> Error) ?mid"
    by (simp add: list_all_iff segment_progress_def Let_def)
  have mid_stages: "map stage ?mid = replicate (length mid) Generating_audio"
    by (simp add: mid_def comp_def segment_progress_def Let_def map_replicate_const)
  have mid_len: "length mid =
      length (filter (list_all (\<lambda>s. \<not> isl (outcome el ph ?as s))) (dispatched (fst ?R)))"
    using run_batches_completed [of el ph t b "int (length ?segs)" ?as "chunks (nat b) ?segs" 0 ?run0]
    by (simp add: mid_def ps(1))
  have pre: "sorted ([5, 10] @ mid)"
    using mid_sorted mid_range by (auto simp: sorted_append)
  have full: "sorted ([5, 10] @ mid @ [95, 100])"
    using mid_sorted mid_range by (auto simp: sorted_append)
  show ?thesis
  proof (cases "snd ?R")
    case (Inl e)
    let ?E = "[?e1, ?e2] @ ?mid @ [?err]"
    have ga: "generateAudiobook el ph t b q params = Some (?E, Inl e)"
      by (simp add: generateAudiobook_def Let_def gs Inl ps(1))
    have pc: "map percent_complete ?E = [5, 10] @ mid @ [0]"
      by (simp add: mid_def)
    have st: "map stage ?E =
        [Analyzing_chapters, Generating_audio] @ replicate (length mid) Generating_audio @ [Error]"
      using mid_stages by simp
    have bl: "butlast ?E = [?e1, ?e2] @ ?mid"
      by (simp add: butlast_append)
    have pb: "map percent_complete (butlast ?E) = [5, 10] @ mid"
      unfolding bl by (simp add: mid_def)
    have sb: "list_all (\<lambda>e. stage e \<noteq> Error) (butlast ?E)"
      unfolding bl using mid_stage by simp
    have la: "last ?E = ?err" by simp
    have ne: "?E \<noteq> []" by simp
    have ig: "isl (snd ?R)" by (simp add: Inl)
    have "generateAudiobook el ph t b q params = Some (?E, Inl e)
       \<and> generateSegments el ph t b ?segs ?as = Some (fst ?R, snd ?R)
       \<and> length mid =
           length (filter (list_all (\<lambda>s. \<not> isl (outcome el ph ?as s))) (dispatched (fst ?R)))
       \<and> sorted mid
       \<and> list_all (\<lambda>x. 10 \<le> x \<and> x \<le> 90) mid
       \<and> (isl (snd ?R) \<longrightarrow> isl (Inl e :: gen_error + AudiobookProject option))
       \<and> (\<not> isl (Inl e :: gen_error + AudiobookProject option) \<longrightarrow>
             map percent_complete ?E = [5, 10] @ mid @ [95, 100]
           \<and> map stage ?E =
               [Analyzing_chapters, Generating_audio] @ replicate (length mid) Generating_audio
                 @ [Finalizing, Complete]
           \<and> sorted (map percent_complete ?E)
           \<and> percent_complete (last ?E) = 100
           \<and> list_all (\<lambda>e. stage e \<noteq> Error) ?E)
       \<and> (isl (Inl e :: gen_error + AudiobookProject option) \<longrightarrow>
             map percent_complete ?E =
               (if isl (snd ?R) then [5, 10] @ mid @ [0] else [5, 10] @ mid @ [95, 100, 0])
           \<and> map stage ?E =
               (if isl (snd ?R)
                then [Analyzing_chapters, Generating_audio] @ replicate (length mid) Generating_audio
                       @ [Error]
                else [Analyzing_chapters, Generating_audio] @ replicate (length mid) Generating_audio
                       @ [Finalizing, Complete, Error])
           \<and> ?E \<noteq> []
           \<and> sorted (map percent_complete (butlast ?E))
           \<and> list_all (\<lambda>e. stage e \<noteq> Error) (butlast ?E)
           \<and> stage (last ?E) = Error
           \<and> percent_complete (last ?E) = 0)"
      unfolding pb pc st la if_P [OF ig]
      using ga gs mid_len mid_sorted mid_range' pre sb ne by simp
    then show ?thesis by blast
  next
    case (Inr audio)
    have ng: "\<not> isl (snd ?R)" by (simp add: Inr)
    show ?thesis
    proof (cases "q (project_id params)")
      case None
      let ?E = "([?e1, ?e2] @ ?mid @ [?e3, ?e4]) @ [?err]"
      have ga: "generateAudiobook el ph t b q params = Some (?E, Inl QueryFailed)"
        by (simp add: generateAudiobook_def Let_def gs Inr ps(1) None)
      have pc: "map percent_complete ?E = [5, 10] @ mid @ [95, 100, 0]"
        by (simp add: mid_def)
      have st: "map stage ?E =
          [Analyzing_chapters, Generating_audio] @ replicate (length mid) Generating_audio
            @ [Finalizing, Complete, Error]"
        using mid_stages by simp
      have bl: "butlast ?E = [?e1, ?e2] @ ?mid @ [?e3, ?e4]"
        by (rule butlast_snoc)
      have pb: "map percent_complete (butlast ?E) = [5, 10] @ mid @ [95, 100]"
        unfolding bl by (simp add: mid_def)
      have sb: "list_all (\<lambda>e. stage e \<noteq> Error) (butlast ?E)"
        unfolding bl using mid_stage by simp
      have la: "last ?E = ?err" by (rule last_snoc)
      have ne: "?E \<noteq> []" by simp
      have "generateAudiobook el ph t b q params = Some (?E, Inl QueryFailed)
         \<and> generateSegments el ph t b ?segs ?as = Some (fst ?R, snd ?R)
         \<and> length mid =
             length (filter (list_all (\<lambda>s. \<not> isl (outcome el ph ?as s))) (dispatched (fst ?R)))
         \<and> sorted mid
         \<and> list_all (\<lambda>x. 10 \<le> x \<and> x \<le> 90) mid
         \<and> (isl (snd ?R) \<longrightarrow> isl (Inl QueryFailed :: gen_error + AudiobookProject option))
         \<and> (\<not> isl (Inl QueryFailed :: gen_error + AudiobookProject option) \<longrightarrow>
               map percent_complete ?E = [5, 10] @ mid @ [95, 100]
             \<and> map stage ?E =
                 [Analyzing_chapters, Generating_audio] @ replicate (length mid) Generating_audio
                   @ [Finalizing, Complete]
             \<and> sorted (map percent_complete ?E)
             \<and> percent_complete (last ?E) = 100
             \<and> list_all (\<lambda>e. stage e \<noteq> Error) ?E)
         \<and> (isl (Inl QueryFailed :: gen_error + AudiobookProject option) \<longrightarrow>
               map percent_complete ?E =
                 (if isl (snd ?R) then [5, 10] @ mid @ [0] else [5, 10] @ mid @ [95, 100, 0])
             \<and> map stage ?E =
                 (if isl (snd ?R)
                  then [Analyzing_chapters, Generating_audio] @ replicate (length mid) Generating_audio
                         @ [Error]
                  else [Analyzing_chapters, Generating_audio] @ replicate (length mid) Generating_audio
                         @ [Finalizing, Complete, Error])
             \<and> ?E \<noteq> []
             \<and> sorted (map percent_complete (butlast ?E))
             \<and> list_all (\<lambda>e. stage e \<noteq> Error) (butlast ?E)
             \<and> stage (last ?E) = Error
             \<and> percent_complete (last ?E) = 0)"
        unfolding pb pc st la if_not_P [OF ng]
        using ga gs mid_len mid_sorted mid_range' full sb ne by simp
      then show ?thesis by blast
    next
      case (Some project)
      let ?E = "[?e1, ?e2] @ ?mid @ [?e3, ?e4]"
      have ga: "generateAudiobook el ph t b q params = Some (?E, Inr project)"
        by (simp add: generateAudiobook_def Let_def gs Inr ps(1) Some)
      have pc: "map percent_complete ?E = [5, 10] @ mid @ [95, 100]"
        by (simp add: mid_def)
      have st: "map stage ?E =
          [Analyzing_chapters, Generating_audio] @ replicate (length mid) Generating_audio
            @ [Finalizing, Complete]"
        using mid_stages by simp
      have sa: "list_all (\<lambda>e. stage e \<noteq> Error) ?E"
        using mid_stage by simp
      have la: "last ?E = ?e4" by simp
      have "generateAudiobook el ph t b q params = Some (?E, Inr project)
         \<and> generateSegments el ph t b ?segs ?as = Some (fst ?R, snd ?R)
         \<and> length mid =
             length (filter (list_all (\<lambda>s. \<not> isl (outcome el ph ?as s))) (dispatched (fst ?R)))
         \<and> sorted mid
         \<and> list_all (\<lambda>x. 10 \<le> x \<and> x \<le> 90) mid
         \<and> (isl (snd ?R) \<longrightarrow> isl (Inr project :: gen_error + AudiobookProject option))
         \<and> (\<not> isl (Inr project :: gen_error + AudiobookProject option) \<longrightarrow>
               map percent_complete ?E = [5, 10] @ mid @ [95, 100]
             \<and> map stage ?E =
                 [Analyzing_chapters, Generating_audio] @ replicate (length mid) Generating_audio
                   @ [Finalizing, Complete]
             \<and> sorted (map percent_complete ?E)
             \<and> percent_complete (last ?E) = 100
             \<and> list_all (\<lambda>e. stage e \<noteq> Error) ?E)
         \<and> (isl (Inr project :: gen_error + AudiobookProject option) \<longrightarrow>
               map percent_complete ?E =
                 (if isl (snd ?R) then [5, 10] @ mid @ [0] else [5, 10] @ mid @ [95, 100, 0])
             \<and> map stage ?E =
                 (if isl (snd ?R)
                  then [Analyzing_chapters, Generating_audio] @ replicate (length mid) Generating_audio
                         @ [Error]
                  else [Analyzing_chapters, Generating_audio] @ replicate (length mid) Generating_audio
                         @ [Finalizing, Complete, Error])
             \<and> ?E \<noteq> []
             \<and> sorted (map percent_complete (butlast ?E))
             \<and> list_all (\<lambda>e. stage e \<noteq> Error) (butlast ?E)
             \<and> stage (last ?E) = Error
             \<and> percent_complete (last ?E) = 0)"
        unfolding pc st la
        using ga gs mid_len mid_sorted mid_range' full sa ng by simp
      then show ?thesis by blast
    qed
  qed
qed

lemma failing_run_events:
  "generateAudiobook failing_service failing_service in_order 2 example_query example_generation =
     Some ([\<lparr>stage = Analyzing_chapters, percent_complete = 5,
              current_segment = None, total_segments = None\<rparr>,
            \<lparr>stage = Generating_audio, percent_complete = 10,
              current_segment = Some 0, total_segments = Some 3\<rparr>,
            \<lparr>stage = Error, percent_complete = 0,
              current_segment = None, total_segments = None\<rparr>],
           Inl AllProvidersFailed)"
  by code_simp

text \<open>
  C9 as stated fails: when both providers fail for the first unit, the events carry the
  percent-complete values 5, 10, 0.
\<close>

theorem progress_drops_to_zero_on_error:
  "map percent_complete
     (fst (the (generateAudiobook failing_service failing_service in_order 2 example_query
                  example_generation))) = [5, 10, 0]
   \<and> \<not> sorted (map percent_complete
         (fst (the (generateAudiobook failing_service failing_service in_order 2 example_query
                      example_generation))))"
  by (simp add: failing_run_events)

theorem progress_monotone_until_error_witness:
  "(0::int) < 2
   \<and> (\<exists>events r. generateAudiobook failing_service failing_service in_order 2 example_query
                     example_generation = Some (events, r)
          \<and> isl r \<and> map percent_complete events = [5, 10, 0]
          \<and> sorted (map percent_complete (butlast events))
          \<and> stage (last events) = Error \<and> percent_complete (last events) = 0)
   \<and> (\<exists>events r mid. generateAudiobook working_service failing_service last_first 2 example_query
                     example_generation = Some (events, r)
          \<and> \<not> isl r \<and> map percent_complete events = [5, 10] @ mid @ [95, 100]
          \<and> mid = [63, 90] \<and> sorted (map percent_complete events))"
proof -
  have pos: "(0::int) < 2" by simp
  let ?segs = "segmentChapters (chapters example_generation)"
  let ?as = "voice_assignments example_generation"
  from progress_monotone_until_error [OF pos, of failing_service failing_service in_order
      example_query example_generation]
  obtain events r run g mid where a:
    "generateAudiobook failing_service failing_service in_order 2 example_query
       example_generation = Some (events, r)"
    "generateSegments failing_service failing_service in_order 2 ?segs ?as = Some (run, g)"
    "length mid =
       length (filter (list_all (\<lambda>s. \<not> isl (outcome failing_service failing_service ?as s)))
                 (dispatched run))"
    "isl g \<longrightarrow> isl r"
    "isl r \<longrightarrow>
       map percent_complete events =
         (if isl g then [5, 10] @ mid @ [0] else [5, 10] @ mid @ [95, 100, 0])
       \<and> sorted (map percent_complete (butlast events))
       \<and> stage (last events) = Error \<and> percent_complete (last events) = 0"
    by blast
  have e1: "isl (snd (the (generateSegments failing_service failing_service in_order 2 ?segs ?as)))"
    by code_simp
  have e2: "filter (list_all (\<lambda>s. \<not> isl (outcome failing_service failing_service ?as s)))
      (dispatched (fst (the (generateSegments failing_service failing_service in_order 2 ?segs ?as)))) = []"
    by code_simp
  from a(2) e1 have g: "isl g" by simp
  from a(2,3) e2 have m: "mid = []" by simp
  from g a(4) have r: "isl r" by simp
  with a(5) g m have "map percent_complete events = [5, 10, 0]
       \<and> sorted (map percent_complete (butlast events))
       \<and> stage (last events) = Error \<and> percent_complete (last events) = 0"
    by simp
  with a(1) r have one: "\<exists>events r. generateAudiobook failing_service failing_service in_order 2
                     example_query example_generation = Some (events, r)
          \<and> isl r \<and> map percent_complete events = [5, 10, 0]
          \<and> sorted (map percent_complete (butlast events))
          \<and> stage (last events) = Error \<and> percent_complete (last events) = 0"
    by (intro exI [of _ events] exI [of _ r]) simp
  have ok: "\<not> isl (snd (the (generateAudiobook working_service failing_service last_first 2
      example_query example_generation)))"
    by code_simp
  have ev: "map percent_complete (fst (the (generateAudiobook working_service failing_service
      last_first 2 example_query example_generation))) = [5, 10, 63, 90, 95, 100]"
    by code_simp
  from progress_monotone_until_error [OF pos, of working_service failing_service last_first
      example_query example_generation]
  obtain events' r' mid' where b:
    "generateAudiobook working_service failing_service last_first 2 example_query
       example_generation = Some (events', r')"
    "\<not> isl r' \<longrightarrow> map percent_complete events' = [5, 10] @ mid' @ [95, 100]
       \<and> sorted (map percent_complete events')"
    by blast
  from b(1) ok have nr: "\<not> isl r'" by simp
  with b(2) have s: "map percent_complete events' = [5, 10] @ mid' @ [95, 100]"
    "sorted (map percent_complete events')" by blast+
  from b(1) ev s(1) have "mid' = [63, 90]" by simp
  with b(1) nr s have two: "\<exists>events r mid. generateAudiobook working_service failing_service
                     last_first 2 example_query example_generation = Some (events, r)
          \<and> \<not> isl r \<and> map percent_complete events = [5, 10] @ mid @ [95, 100]
          \<and> mid = [63, 90] \<and> sorted (map percent_complete events)"
    by (intro exI [of _ events'] exI [of _ r'] exI [of _ mid']) simp
  from pos one two show ?thesis by blast
qed

section \<open>Segmenter: dialogue detection\<close>

lemma closingQuote_iff:
  "closingQuote s \<longleftrightarrow>
     (\<exists>mid post. s = mid @ DQUOTE # post \<and> (\<forall>c\<in>set mid. \<not> isLineTerminator c))"
proof (induction s)
  case Nil
  then show ?case by simp
next
  case (Cons c cs)
  show ?case
  proof (cases "c = DQUOTE")
    case True
    then have "c # cs = [] @ DQUOTE # cs \<and> (\<forall>c\<in>set []. \<not> isLineTerminator c)" by simp
    then have "\<exists>mid post. c # cs = mid @ DQUOTE # post \<and> (\<forall>c\<in>set mid. \<not> isLineTerminator c)"
      by blast
    with True show ?thesis by simp
  next
    case nq: False
    show ?thesis
    proof (cases "isLineTerminator c")
      case True
      have "\<not> (\<exists>mid post. c # cs = mid @ DQUOTE # post \<and> (\<forall>c\<in>set mid. \<not> isLineTerminator c))"
      proof
        assume "\<exists>mid post. c # cs = mid @ DQUOTE # post \<and> (\<forall>c\<in>set mid. \<not> isLineTerminator c)"
        then obtain mid post where m: "c # cs = mid @ DQUOTE # post"
          "\<forall>c\<in>set mid. \<not> isLineTerminator c" by blast
        show False
        proof (cases mid)
          case Nil
          with m(1) nq show False by simp
        next
          case (Cons x xs)
          with m True show False by simp
        qed
      qed
      with nq True show ?thesis by simp
    next
      case False
      have "(\<exists>mid post. c # cs = mid @ DQUOTE # post \<and> (\<forall>c\<in>set mid. \<not> isLineTerminator c))
          \<longleftrightarrow> (\<exists>mid post. cs = mid @ DQUOTE # post \<and> (\<forall>c\<in>set mid. \<not> isLineTerminator c))"
      proof
        assume "\<exists>mid post. c # cs = mid @ DQUOTE # post \<and> (\<forall>c\<in>set mid. \<not> isLineTerminator c)"
        then obtain mid post where m: "c # cs = mid @ DQUOTE # post"
          "\<forall>c\<in>set mid. \<not> isLineTerminator c" by blast
        show "\<exists>mid post. cs = mid @ DQUOTE # post \<and> (\<forall>c\<in>set mid. \<not> isLineTerminator c)"
        proof (cases mid)
          case Nil
          with m(1) nq show ?thesis by simp
        next
          case (Cons x xs)
          with m have "cs = xs @ DQUOTE # post" "\<forall>c\<in>set xs. \<not> isLineTerminator c" by simp_all
          then show ?thesis by blast
        qed
      next
        assume "\<exists>mid post. cs = mid @ DQUOTE # post \<and> (\<forall>c\<in>set mid. \<not> isLineTerminator c)"
        then obtain mid post where m: "cs = mid @ DQUOTE # post"
          "\<forall>c\<in>set mid. \<not> isLineTerminator c" by blast
        with False have "c # cs = (c # mid) @ DQUOTE # post"
          "\<forall>x\<in>set (c # mid). \<not> isLineTerminator x" by simp_all
        then show "\<exists>mid post. c # cs = mid @ DQUOTE # post \<and> (\<forall>c\<in>set mid. \<not> isLineTerminator c)"
          by blast
      qed
      with nq False Cons.IH show ?thesis by simp
    qed
  qed
qed

lemma quotedSpan_iff:
  "quotedSpan s \<longleftrightarrow>
     (\<exists>pre mid post. s = pre @ DQUOTE # mid @ DQUOTE # post
        \<and> (\<forall>c\<in>set mid. \<not> isLineTerminator c))"
proof (induction s)
  case Nil
  then show ?case by simp
next
  case (Cons c cs)
  show ?case
  proof
    assume "quotedSpan (c # cs)"
    then consider "c = DQUOTE" "closingQuote cs" | "quotedSpan cs" by auto
    then show "\<exists>pre mid post. c # cs = pre @ DQUOTE # mid @ DQUOTE # post
        \<and> (\<forall>c\<in>set mid. \<not> isLineTerminator c)"
    proof cases
      case 1
      from 1(2) obtain mid post where "cs = mid @ DQUOTE # post"
        "\<forall>c\<in>set mid. \<not> isLineTerminator c" by (auto simp: closingQuote_iff)
      with 1(1) have "c # cs = [] @ DQUOTE # mid @ DQUOTE # post
        \<and> (\<forall>c\<in>set mid. \<not> isLineTerminator c)" by simp
      then show ?thesis by blast
    next
      case 2
      with Cons.IH obtain pre mid post where "cs = pre @ DQUOTE # mid @ DQUOTE # post"
        "\<forall>c\<in>set mid. \<not> isLineTerminator c" by blast
      then have "c # cs = (c # pre) @ DQUOTE # mid @ DQUOTE # post
        \<and> (\<forall>c\<in>set mid. \<not> isLineTerminator c)" by simp
      then show ?thesis by blast
    qed
  next
    assume "\<exists>pre mid post. c # cs = pre @ DQUOTE # mid @ DQUOTE # post
        \<and> (\<forall>c\<in>set mid. \<not> isLineTerminator c)"
    then obtain pre mid post where m: "c # cs = pre @ DQUOTE # mid @ DQUOTE # post"
      "\<forall>c\<in>set mid. \<not> isLineTerminator c" by blast
    show "quotedSpan (c # cs)"
    proof (cases pre)
      case Nil
      with m have "c = DQUOTE" "cs = mid @ DQUOTE # post" by simp_all
      with m(2) have "c = DQUOTE" "closingQuote cs" by (auto simp: closingQuote_iff)
      then show ?thesis by simp
    next
      case (Cons x xs)
      with m have "cs = xs @ DQUOTE # mid @ DQUOTE # post" by simp
      with m(2) Cons.IH have "quotedSpan cs" by blast
      then show ?thesis by simp
    qed
  qed
qed

lemma verb_occurs_iff:
  "list_ex (\<lambda>verb. str_includes s verb) attributionVerbs \<longleftrightarrow>
     (\<exists>verb\<in>set [''said'', ''asked'', ''replied'', ''whispered'', ''shouted''].
        \<exists>pre post. s = pre @ verb @ post)"
  by (simp only: list_ex_iff attributionVerbs_def str_includes_iff)

text \<open>
  C7 as stated fails. A paragraph whose quotation runs over a line break is classified as
  narrative although it contains a quoted span and the word said, and a paragraph with
  a quoted span and no attribution verb is classified as dialogue when one of the five
  words occurs inside another word, as asked does in unasked.
\<close>

theorem quoted_span_and_verb_do_not_decide:
  "broken_quote_paragraph = DQUOTE # (''Go'' @ [LF] @ ''now,'') @ DQUOTE # '' she said.''
   \<and> str_includes broken_quote_paragraph ''said''
   \<and> \<not> detectDialogue broken_quote_paragraph
   \<and> map segment_type (paragraph_segments example_chapter 0 broken_quote_paragraph) = [Narrative]
   \<and> unasked_paragraph = DQUOTE # ''Fine.'' @ DQUOTE # '' The question stayed unasked.''
   \<and> detectDialogue unasked_paragraph
   \<and> map segment_type (paragraph_segments example_chapter 0 unasked_paragraph) = [Dialogue]"
  by code_simp

text \<open>
  C7 (as amended). A paragraph is classified as dialogue exactly when it contains two
  double-quote characters (the straight quote, U+0022) with no line break between them
  and one of the words said, asked, replied, whispered, shouted occurs in it (in lower
  case, anywhere, also inside a longer word); every other non-blank paragraph is
  classified as narrative, and each yields exactly one unit. A paragraph with a quoted
  phrase and the word said is dialogue; the same paragraph with the verb replaced by one
  outside the list is narrative.
\<close>

theorem dialogue_iff_quote_and_verb:
  "(detectDialogue p \<longleftrightarrow>
      (\<exists>pre mid post. p = pre @ DQUOTE # mid @ DQUOTE # post
          \<and> (\<forall>c\<in>set mid. \<not> isLineTerminator c))
      \<and> (\<exists>verb\<in>set [''said'', ''asked'', ''replied'', ''whispered'', ''shouted''].
            \<exists>pre post. p = pre @ verb @ post))
   \<and> (trim p \<noteq> [] \<longrightarrow>
        map segment_type (paragraph_segments ch k p) =
          [if detectDialogue p then Dialogue else Narrative])
   \<and> (trim p = [] \<longrightarrow> paragraph_segments ch k p = [])
   \<and> detectDialogue (DQUOTE # ''Hello,'' @ DQUOTE # '' John said.'')
   \<and> \<not> detectDialogue (DQUOTE # ''Hello,'' @ DQUOTE # '' John smiled.'')"
proof -
  have a: "detectDialogue p \<longleftrightarrow>
      (\<exists>pre mid post. p = pre @ DQUOTE # mid @ DQUOTE # post
          \<and> (\<forall>c\<in>set mid. \<not> isLineTerminator c))
      \<and> (\<exists>verb\<in>set [''said'', ''asked'', ''replied'', ''whispered'', ''shouted''].
            \<exists>pre post. p = pre @ verb @ post)"
    by (simp only: detectDialogue_def quotedSpan_iff verb_occurs_iff)
  have b: "map segment_type (paragraph_segments ch k p) =
          [if detectDialogue p then Dialogue else Narrative]" if "trim p \<noteq> []"
    using that by (simp add: paragraph_segments_def Let_def)
  have c: "paragraph_segments ch k p = []" if "trim p = []"
    using that by (simp add: paragraph_segments_def)
  have d: "detectDialogue (DQUOTE # ''Hello,'' @ DQUOTE # '' John said.'')"
    by code_simp
  have e: "\<not> detectDialogue (DQUOTE # ''Hello,'' @ DQUOTE # '' John smiled.'')"
    by code_simp
  from a b c d e show ?thesis by blast
qed

theorem dialogue_iff_quote_and_verb_witness:
  "trim spoken_paragraph \<noteq> [] \<and> detectDialogue spoken_paragraph
   \<and> map segment_type (paragraph_segments example_chapter 0 spoken_paragraph) = [Dialogue]
   \<and> trim unspoken_paragraph \<noteq> [] \<and> \<not> detectDialogue unspoken_paragraph
   \<and> map segment_type (paragraph_segments example_chapter 0 unspoken_paragraph) = [Narrative]
   \<and> trim [LF] = [] \<and> paragraph_segments example_chapter 0 [LF] = []"
proof -
  have s: "trim spoken_paragraph \<noteq> []" "detectDialogue spoken_paragraph" by code_simp+
  have u: "trim unspoken_paragraph \<noteq> []" "\<not> detectDialogue unspoken_paragraph" by code_simp+
  have n: "trim [LF] = []" by code_simp
  note A = dialogue_iff_quote_and_verb [of spoken_paragraph example_chapter 0]
  note B = dialogue_iff_quote_and_verb [of unspoken_paragraph example_chapter 0]
  note C = dialogue_iff_quote_and_verb [of "[LF]" example_chapter 0]
  from A s have a: "map segment_type (paragraph_segments example_chapter 0 spoken_paragraph) = [Dialogue]"
    by simp
  from B u have b: "map segment_type (paragraph_segments example_chapter 0 unspoken_paragraph) = [Narrative]"
    by simp
  from C n have c: "paragraph_segments example_chapter 0 [LF] = []" by blast
  from s u n a b c show ?thesis by blast
qed

section \<open>Order of units, fragments and audio\<close>

lemma forEach_paragraph_acc:
  "forEach_paragraph ch k ps acc = acc @ forEach_paragraph ch k ps []"
proof (induction ps arbitrary: k acc)
  case Nil
  then show ?case by simp
next
  case (Cons p ps)
  have "forEach_paragraph ch k (p # ps) acc =
      forEach_paragraph ch (k + 1) ps (acc @ paragraph_segments ch k p)" by simp
  also have "\<dots> = (acc @ paragraph_segments ch k p) @ forEach_paragraph ch (k + 1) ps []"
    by (rule Cons.IH)
  also have "\<dots> = acc @ (paragraph_segments ch k p @ forEach_paragraph ch (k + 1) ps [])"
    by simp
  also have "paragraph_segments ch k p @ forEach_paragraph ch (k + 1) ps [] =
      forEach_paragraph ch (k + 1) ps ([] @ paragraph_segments ch k p)"
    using Cons.IH [of "k + 1" "paragraph_segments ch k p"] by simp
  finally show ?case by simp
qed

lemma forEach_paragraph_Cons:
  "forEach_paragraph ch k (p # ps) [] = paragraph_segments ch k p @ forEach_paragraph ch (Suc k) ps []"
  using forEach_paragraph_acc [of ch "Suc k" ps "paragraph_segments ch k p"] by simp

lemma paragraph_segments_numbers:
  "s \<in> set (paragraph_segments ch k p) \<Longrightarrow> sequence_number s = Suc k"
  by (auto simp: paragraph_segments_def Let_def split: if_splits)

lemma forEach_paragraph_numbers:
  "sorted_wrt (<) (map sequence_number (forEach_paragraph ch k ps []))
   \<and> (\<forall>s\<in>set (forEach_paragraph ch k ps []). k < sequence_number s \<and> sequence_number s \<le> k + length ps)"
proof (induction ps arbitrary: k)
  case Nil
  then show ?case by simp
next
  case (Cons p ps)
  let ?here = "paragraph_segments ch k p"
  let ?rest = "forEach_paragraph ch (Suc k) ps []"
  from Cons.IH [of "Suc k"] have r: "sorted_wrt (<) (map sequence_number ?rest)"
    "\<forall>s\<in>set ?rest. Suc k < sequence_number s \<and> sequence_number s \<le> Suc k + length ps" by blast+
  have h: "\<forall>s\<in>set ?here. sequence_number s = Suc k"
    by (simp add: paragraph_segments_numbers)
  have one: "length ?here \<le> 1" by (simp add: paragraph_segments_def Let_def)
  then have hs: "sorted_wrt (<) (map sequence_number ?here)"
    by (cases ?here) auto
  have "sorted_wrt (<) (map sequence_number (?here @ ?rest))"
    using hs r h by (auto simp: sorted_wrt_append)
  moreover have "\<forall>s\<in>set (?here @ ?rest). k < sequence_number s \<and> sequence_number s \<le> k + length (p # ps)"
    using h r(2) by auto
  ultimately show ?case by (simp only: forEach_paragraph_Cons)
qed

lemma segmentChapters_loop_concat:
  "segmentChapters_loop chs acc =
     acc @ concat (map (\<lambda>c. forEach_paragraph c 0 (split_paragraphs (content c)) []) chs)"
proof (induction chs arbitrary: acc)
  case Nil
  then show ?case by simp
next
  case (Cons c chs)
  show ?case
    using forEach_paragraph_acc [of c 0 "split_paragraphs (content c)" acc]
    by (simp add: Cons.IH)
qed

lemma segmentChapters_single:
  "segmentChapters [c] = forEach_paragraph c 0 (split_paragraphs (content c)) []"
  by (simp add: segmentChapters_def)

lemma segmentChapters_concat:
  "segmentChapters chs = concat (map (\<lambda>c. segmentChapters [c]) chs)"
  by (simp only: segmentChapters_single) (simp add: segmentChapters_def segmentChapters_loop_concat)

lemma fragments_in_unit_order:
  assumes "0 < b" "generateSegments el ph t b segs as = Some (run, Inr rs)"
  shows "rs = map (\<lambda>s. projr (outcome el ph as s)) segs"
proof -
  from assms(1) have nb: "0 < nat b" by simp
  let ?run0 = "\<lparr>results = [], dispatched = [], progress = []\<rparr>"
  let ?R = "run_batches el ph t b (int (length segs)) as (chunks (nat b) segs) 0 ?run0"
  from assms generateSegments_run_batches [OF assms(1), of el ph t segs as]
  have rs: "snd ?R = Inr rs" by simp
  have ok: "\<forall>s\<in>set (concat (chunks (nat b) segs)). \<not> isl (outcome el ph as s)"
  proof (rule ccontr)
    assume "\<not> (\<forall>s\<in>set (concat (chunks (nat b) segs)). \<not> isl (outcome el ph as s))"
    then have "\<exists>s\<in>set (concat (chunks (nat b) segs)). isl (outcome el ph as s)" by blast
    from run_batches_rejected [OF this, of t b "int (length segs)" 0 ?run0] rs
    show False by auto
  qed
  from run_batches_fulfilled [OF ok, of t b "int (length segs)" 0 ?run0] rs
  show ?thesis by (simp add: concat_chunks [OF nb])
qed

lemma normalize_segment_data:
  "normalize_segment now eng lufs w g = (w', Inr n) \<Longrightarrow>
     eng (Loudnorm lufs) (audio_data g) = Some (normalized_data n)"
  unfolding normalize_segment_def Let_def
  by (simp split: prod.splits sum.splits)
     (auto simp: run_ffmpeg_def writeFile_def readFile_def split: option.splits)

lemma normalizeAudio_loop_data:
  "normalizeAudio_loop now eng lufs gs w acc = (w', Inr ns) \<Longrightarrow>
     map (\<lambda>n. Some (normalized_data n)) ns =
       map (\<lambda>n. Some (normalized_data n)) acc @ map (\<lambda>g. eng (Loudnorm lufs) (audio_data g)) gs"
proof (induction gs arbitrary: w acc)
  case Nil
  then show ?case by simp
next
  case (Cons g gs)
  from Cons.prems obtain w1 n where
    s: "normalize_segment now eng lufs w g = (w1, Inr n)"
    and r: "normalizeAudio_loop now eng lufs gs w1 (acc @ [n]) = (w', Inr ns)"
    by (simp split: prod.splits sum.splits)
  from Cons.IH [OF r] normalize_segment_data [OF s] show ?case by simp
qed

lemma assembleAudiobook_mp3:
  assumes "snd (assembleAudiobook now eng lufs w params) = Inr book"
  shows "mp3_file book =
           concat (map (\<lambda>g. the (eng (Loudnorm lufs) (audio_data g))) (audio_segments params))"
proof -
  obtain w1 r1 where n: "normalizeAudio now eng lufs w (audio_segments params) = (w1, r1)"
    by (cases "normalizeAudio now eng lufs w (audio_segments params)")
  show ?thesis
  proof (cases r1)
    case (Inl e)
    with n assms show ?thesis by (simp add: assembleAudiobook_def)
  next
    case (Inr ns)
    obtain w2 r2 where m: "generateM4B now eng w1 (addChapterMarkers ns) = (w2, r2)"
      by (cases "generateM4B now eng w1 (addChapterMarkers ns)")
    from n Inr have "map (\<lambda>n. Some (normalized_data n)) ns =
        map (\<lambda>g. eng (Loudnorm lufs) (audio_data g)) (audio_segments params)"
      using normalizeAudio_loop_data [of now eng lufs "audio_segments params" w "[]" w1 ns]
      by (simp add: normalizeAudio_def)
    then have "map the (map (\<lambda>n. Some (normalized_data n)) ns) =
        map the (map (\<lambda>g. eng (Loudnorm lufs) (audio_data g)) (audio_segments params))"
      by simp
    then have d: "map normalized_data ns =
        map (\<lambda>g. the (eng (Loudnorm lufs) (audio_data g))) (audio_segments params)"
      by (simp add: comp_def)
    show ?thesis
    proof (cases r2)
      case (Inl e)
      with n Inr m assms show ?thesis by (simp add: assembleAudiobook_def Let_def)
    next
      case (Inr m4b)
      with n \<open>r1 = Inr ns\<close> m assms
      have "mp3_file book = generateMP3 (addChapterMarkers ns)"
        by (auto simp: assembleAudiobook_def Let_def)
      with d show ?thesis by (simp add: generateMP3_def addChapterMarkers_def)
    qed
  qed
qed

lemma two_chapter_numbers:
  "map sequence_number (segmentChapters [example_chapter, second_chapter]) = [1, 2, 3, 1]"
  by code_simp

text \<open>
  C1 as stated fails: the numbering starts again in every chapter, so the units of a
  book of two chapters are numbered 1, 2, 3, 1.
\<close>

theorem sequence_numbers_restart_per_chapter:
  "map sequence_number (segmentChapters [example_chapter, second_chapter]) = [1, 2, 3, 1]
   \<and> \<not> sorted_wrt (<) (map sequence_number (segmentChapters [example_chapter, second_chapter]))"
  by (simp add: two_chapter_numbers)

text \<open>
  C1 (as amended). The units of a book are the units of its chapters, chapter after
  chapter. Within a chapter the sequence numbers are strictly increasing, and lie
  between one and the number of the chapter's paragraph candidates. The order of the
  unit list is kept to the end: a run of positive batch size that returns fragments
  returns the outcome of each unit at the unit's position, whatever the order in which
  the calls settled, and the assembler concatenates the audio of its fragments in the
  order of its input list.
\<close>

theorem unit_order_preserved:
  "segmentChapters chs = concat (map (\<lambda>c. segmentChapters [c]) chs)
   \<and> sorted_wrt (<) (map sequence_number (segmentChapters [c]))
   \<and> (\<forall>s\<in>set (segmentChapters [c]).
         1 \<le> sequence_number s
         \<and> sequence_number s \<le> length (split_paragraphs (content c)))
   \<and> (0 < b \<and> generateSegments el ph t b segs as = Some (run, Inr rs) \<longrightarrow>
         rs = map (\<lambda>s. projr (outcome el ph as s)) segs)
   \<and> fst (addChapterMarkers ns) = concat (map normalized_data ns)
   \<and> (snd (assembleAudiobook now eng lufs w params) = Inr book \<longrightarrow>
         mp3_file book =
           concat (map (\<lambda>g. the (eng (Loudnorm lufs) (audio_data g))) (audio_segments params)))"
proof -
  note N = forEach_paragraph_numbers [of c 0 "split_paragraphs (content c)"]
  from N have inc: "sorted_wrt (<) (map sequence_number (segmentChapters [c]))"
    by (simp only: segmentChapters_single)
  from N have rng: "\<forall>s\<in>set (segmentChapters [c]).
         1 \<le> sequence_number s
         \<and> sequence_number s \<le> length (split_paragraphs (content c))"
    by (simp only: segmentChapters_single) auto
  have gen: "rs = map (\<lambda>s. projr (outcome el ph as s)) segs"
    if "0 < b \<and> generateSegments el ph t b segs as = Some (run, Inr rs)"
    using that fragments_in_unit_order by blast
  have cat: "fst (addChapterMarkers ns) = concat (map normalized_data ns)"
    by (simp add: addChapterMarkers_def)
  from segmentChapters_concat [of chs] inc rng gen cat assembleAudiobook_mp3
  show ?thesis by blast
qed

lemma five_units_run:
  "\<exists>run rs. generateSegments working_service failing_service last_first 2 five_units
      example_assignments = Some (run, Inr rs)"
proof -
  have "case generateSegments working_service failing_service last_first 2 five_units
      example_assignments of Some (run, Inr rs) \<Rightarrow> True | _ \<Rightarrow> False"
    by code_simp
  then show ?thesis
    by (cases "generateSegments working_service failing_service last_first 2 five_units
          example_assignments")
       (auto split: sum.splits)
qed

theorem unit_order_preserved_witness:
  "sorted_wrt (<) (map sequence_number (segmentChapters [example_chapter]))
   \<and> segmentChapters [example_chapter, second_chapter] =
       segmentChapters [example_chapter] @ segmentChapters [second_chapter]
   \<and> (0::int) < 2
   \<and> (\<exists>run rs. generateSegments working_service failing_service last_first 2 five_units
          example_assignments = Some (run, Inr rs)
        \<and> rs = map (\<lambda>s. projr (outcome working_service failing_service example_assignments s))
                 five_units)
   \<and> \<not> isl (snd (assembleAudiobook ticking_clock working_engine (- 23) empty_world example_assembly))
   \<and> mp3_file (projr (snd (assembleAudiobook ticking_clock working_engine (- 23) empty_world
         example_assembly))) = ''#one#two#three''"
proof -
  let ?r = "snd (assembleAudiobook ticking_clock working_engine (- 23) empty_world example_assembly)"
  have pos: "(0::int) < 2" by simp
  from five_units_run obtain run rs where g:
    "generateSegments working_service failing_service last_first 2 five_units
      example_assignments = Some (run, Inr rs)" by blast
  have ok: "\<not> isl ?r" by code_simp
  then obtain book where h: "?r = Inr book" by (cases ?r) auto
  note T = unit_order_preserved [of "[example_chapter, second_chapter]" example_chapter 2
      working_service failing_service last_first five_units example_assignments run rs "[]"
      ticking_clock working_engine "- 23" empty_world example_assembly book]
  from T have a: "sorted_wrt (<) (map sequence_number (segmentChapters [example_chapter]))"
    by blast
  from T have b: "segmentChapters [example_chapter, second_chapter] =
       segmentChapters [example_chapter] @ segmentChapters [second_chapter]"
    by simp
  from T pos g have c: "rs = map (\<lambda>s. projr (outcome working_service failing_service
       example_assignments s)) five_units"
    by blast
  from T h have "mp3_file book = concat (map (\<lambda>g. the (working_engine (Loudnorm (- 23))
       (audio_data g))) (audio_segments example_assembly))"
    by blast
  then have d: "mp3_file book = ''#one#two#three''"
    by (simp add: working_engine_def example_assembly_def example_fragments_def)
  from a b pos g c ok d show ?thesis
    unfolding h by auto
qed

section \<open>Assembler: temporary files\<close>

text \<open>When a step succeeds, the two files it created are gone when it returns.\<close>

lemma normalize_segment_cleans_up:
  assumes "normalize_segment now eng lufs w g = (w', Inr n)"
  shows "files w' = (files w)(InputFile (now (clock_reads w)) (extension (format g)) := None,
                              OutputFile (now (Suc (clock_reads w))) ''mp3'' := None)"
  using assms
  unfolding normalize_segment_def Let_def
  by (simp add: Date_now_def split: prod.splits sum.splits)
     (auto simp: run_ffmpeg_def writeFile_def readFile_def unlink_def split: option.splits)

lemma normalize_segment_leaves_input:
  assumes "eng (Loudnorm lufs) (audio_data g) = None"
  shows "snd (normalize_segment now eng lufs w g) = Inl EngineError
         \<and> files (fst (normalize_segment now eng lufs w g))
             (InputFile (now (clock_reads w)) (extension (format g))) = Some (audio_data g)"
  using assms
  by (simp add: normalize_segment_def Let_def Date_now_def run_ffmpeg_def writeFile_def)

lemma generateM4B_leaves_input:
  assumes "eng ToM4b (fst d) = None"
  shows "snd (generateM4B now eng w d) = Inl EngineError
         \<and> files (fst (generateM4B now eng w d)) (InputFile (now (clock_reads w)) ''mp3'') = Some (fst d)"
  using assms
  by (simp add: generateM4B_def Let_def Date_now_def run_ffmpeg_def writeFile_def)

text \<open>
  C10 fails on the code: when the audio engine fails, both steps log and rethrow without
  deleting the input file they have written. With an engine that fails, normalizing the
  example fragments ends in the engine's error and leaves \<open>input_1000.mp3\<close> behind, and
  so does the encoding step.
\<close>

theorem temp_input_left_behind_on_engine_failure:
  "snd (normalizeAudio ticking_clock broken_engine (- 23) empty_world example_fragments) =
     Inl EngineError
   \<and> files (fst (normalizeAudio ticking_clock broken_engine (- 23) empty_world example_fragments))
       (InputFile 1000 ''mp3'') = Some ''one''
   \<and> snd (generateM4B ticking_clock broken_engine empty_world (''#one#two#three'', [])) =
       Inl EngineError
   \<and> files (fst (generateM4B ticking_clock broken_engine empty_world (''#one#two#three'', [])))
       (InputFile 1000 ''mp3'') = Some ''#one#two#three''"
  by code_simp

end
